theory Spec2Isabelle
  imports Main
begin

section \<open>Python values shared by both modules\<close>

text \<open>
  The exceptions the two modules can raise are Python's \<^verbatim>\<open>IndexError\<close>, from a subscript
  outside a sequence, and \<^verbatim>\<open>RecursionError\<close>, from a nested call that the interpreter's
  recursion limit no longer allows (only \<^verbatim>\<open>assemble_transformation\<close> calls itself). Every
  subscript of the source is modelled by a checked read, so that an out-of-range access is
  a value of the model and not an unspecified element.
\<close>

datatype error = IndexError | RecursionError

text \<open>\<^verbatim>\<open>xs[i]\<close> for an index that is known to be a natural number.\<close>

definition py_nth :: "'a list \<Rightarrow> nat \<Rightarrow> error + 'a" where
  "py_nth xs i = (if i < length xs then Inr (xs ! i) else Inl IndexError)"

text \<open>\<^verbatim>\<open>xs[i]\<close> for an arbitrary Python integer: a negative index counts from the end.\<close>

definition py_index :: "'a list \<Rightarrow> int \<Rightarrow> error + 'a" where
  "py_index xs i =
     (if 0 \<le> i then py_nth xs (nat i)
      else if 0 \<le> int (length xs) + i then py_nth xs (nat (int (length xs) + i))
      else Inl IndexError)"

section \<open>Knuth-Morris-Pratt: \<^verbatim>\<open>strings/knuth_morris_pratt.py\<close>\<close>

text \<open>
  The cursors \<^verbatim>\<open>i\<close> and \<^verbatim>\<open>j\<close> of both loops start at \<^verbatim>\<open>0\<close> or \<^verbatim>\<open>1\<close> and are only
  incremented or assigned an entry of the failure array (itself a former value of a
  cursor); \<^verbatim>\<open>i - 1\<close> and \<^verbatim>\<open>j - 1\<close> are computed under the guards \<^verbatim>\<open>i > 0\<close> and
  \<^verbatim>\<open>j > 0\<close>. They are natural numbers in the model. A pattern is a sequence of symbols of
  any type. Both loops contain a \<^verbatim>\<open>continue\<close> whose progress depends on the contents of the
  failure array, so they are partial functions: \<open>None\<close> is a loop that runs forever,
  \<open>Some (Inl e)\<close> a raised exception, \<open>Some (Inr v)\<close> a returned value.
\<close>

partial_function (option) get_failure_loop ::
  "'a list \<Rightarrow> nat list \<Rightarrow> nat \<Rightarrow> nat \<Rightarrow> (error + nat list) option" where
  "get_failure_loop pattern failure i j =
     (if j < length pattern then
        (case py_nth pattern i of
           Inl e \<Rightarrow> Some (Inl e)
         | Inr a \<Rightarrow>
            (case py_nth pattern j of
               Inl e \<Rightarrow> Some (Inl e)
             | Inr b \<Rightarrow>
                (if a = b then get_failure_loop pattern (failure @ [i + 1]) (i + 1) (j + 1)
                 else if i > 0 then
                   (case py_nth failure (i - 1) of
                      Inl e \<Rightarrow> Some (Inl e)
                    | Inr k \<Rightarrow> get_failure_loop pattern failure k j)
                 else get_failure_loop pattern (failure @ [i]) i (j + 1))))
      else Some (Inr failure))"

declare get_failure_loop.simps [code]

definition get_failure_array :: "'a list \<Rightarrow> (error + nat list) option" where
  "get_failure_array pattern = get_failure_loop pattern [0] 0 1"

text \<open>
  The scan loop of \<^verbatim>\<open>kmp\<close>: \<open>kmp_body\<close> is one execution of the loop body at the
  cursors \<open>(i, j)\<close>, which raises, returns from \<^verbatim>\<open>kmp\<close>, or leaves new cursors for the next
  test of the loop condition (both \<^verbatim>\<open>continue\<close> and falling through to \<^verbatim>\<open>i += 1\<close> do).
  The test \<^verbatim>\<open>j == len(pattern) - 1\<close> is an integer
  comparison: for an empty pattern the right-hand side is \<^verbatim>\<open>-1\<close>.
\<close>

datatype 'r flow = Return 'r | Continue nat nat

definition kmp_body ::
  "'a list \<Rightarrow> nat list \<Rightarrow> 'a list \<Rightarrow> nat \<Rightarrow> nat \<Rightarrow> error + bool flow" where
  "kmp_body pattern failure text i j =
     (case py_nth pattern j of
        Inl e \<Rightarrow> Inl e
      | Inr a \<Rightarrow>
         (case py_nth text i of
            Inl e \<Rightarrow> Inl e
          | Inr b \<Rightarrow>
             (if a = b then
                (if int j = int (length pattern) - 1 then Inr (Return True)
                 else Inr (Continue (i + 1) (j + 1)))
              else if j > 0 then
                (case py_nth failure (j - 1) of
                   Inl e \<Rightarrow> Inl e
                 | Inr k \<Rightarrow> Inr (Continue i k))
              else Inr (Continue (i + 1) j))))"

partial_function (option) kmp_loop ::
  "'a list \<Rightarrow> nat list \<Rightarrow> 'a list \<Rightarrow> nat \<Rightarrow> nat \<Rightarrow> (error + bool) option" where
  "kmp_loop pattern failure text i j =
     (if i < length text then
        (case kmp_body pattern failure text i j of
           Inl e \<Rightarrow> Some (Inl e)
         | Inr (Return r) \<Rightarrow> Some (Inr r)
         | Inr (Continue i' j') \<Rightarrow> kmp_loop pattern failure text i' j')
      else Some (Inr False))"

declare kmp_loop.simps [code]

text \<open>
  The pairs \<open>(i, j)\<close> with which the \<^verbatim>\<open>while\<close> test of the scan loop is evaluated:
  the initial pair, and the pair left by every execution of the body that neither returns
  nor raises.
\<close>

inductive kmp_reach :: "'a list \<Rightarrow> nat list \<Rightarrow> 'a list \<Rightarrow> nat \<Rightarrow> nat \<Rightarrow> bool"
  for pattern :: "'a list" and failure :: "nat list" and t :: "'a list" where
  start: "kmp_reach pattern failure t 0 0"
| step: "kmp_reach pattern failure t i j \<Longrightarrow> i < length t \<Longrightarrow>
         kmp_body pattern failure t i j = Inr (Continue i' j') \<Longrightarrow>
         kmp_reach pattern failure t i' j'"

definition kmp :: "'a list \<Rightarrow> 'a list \<Rightarrow> (error + bool) option" where
  "kmp pattern text =
     (case get_failure_array pattern of
        None \<Rightarrow> None
      | Some (Inl e) \<Rightarrow> Some (Inl e)
      | Some (Inr failure) \<Rightarrow> kmp_loop pattern failure text 0 0)"

section \<open>Correctness of the failure array\<close>

text \<open>
  \<open>border p n k\<close>: the first \<open>k\<close> symbols of \<open>p\<close> are a proper prefix of its first \<open>n\<close>
  symbols and also their suffix, written index by index.
\<close>

definition border :: "'a list \<Rightarrow> nat \<Rightarrow> nat \<Rightarrow> bool" where
  "border p n k \<longleftrightarrow> k < n \<and> (\<forall>t<k. p ! t = p ! (n - k + t))"

definition longest_border :: "'a list \<Rightarrow> nat \<Rightarrow> nat \<Rightarrow> bool" where
  "longest_border p n k \<longleftrightarrow> border p n k \<and> (\<forall>k'. border p n k' \<longrightarrow> k' \<le> k)"

text \<open>
  The invariant of the loop of \<^verbatim>\<open>get_failure_array\<close> at its test: the entries written so
  far are the longest borders, \<open>i\<close> is a border of the first \<open>j\<close> symbols, and no border of
  the first \<open>j + 1\<close> symbols is longer than \<open>i + 1\<close>.
\<close>

definition fa_inv :: "'a list \<Rightarrow> nat list \<Rightarrow> nat \<Rightarrow> nat \<Rightarrow> bool" where
  "fa_inv p f i j \<longleftrightarrow>
     1 \<le> j \<and> j \<le> length p \<and> length f = j \<and> i < j \<and>
     (\<forall>n<j. longest_border p (Suc n) (f ! n)) \<and>
     (\<forall>t<i. p ! t = p ! (j - i + t)) \<and>
     (\<forall>k. border p (Suc j) (Suc k) \<longrightarrow> k \<le> i)"

lemma border_shrink: "border p (Suc n) (Suc k) \<Longrightarrow> border p n k"
  unfolding border_def by auto

lemma border_last: "border p (Suc n) (Suc k) \<Longrightarrow> p ! k = p ! n"
  unfolding border_def
proof -
  assume a: "Suc k < Suc n \<and> (\<forall>t<Suc k. p ! t = p ! (Suc n - Suc k + t))"
  then have "p ! k = p ! (Suc n - Suc k + k)" by blast
  moreover have "Suc n - Suc k + k = n" using a by simp
  ultimately show ?thesis by simp
qed

lemma fa_inv_init: "p \<noteq> [] \<Longrightarrow> fa_inv p [0] 0 1"
  unfolding fa_inv_def longest_border_def border_def
  by (cases p) auto

lemma fa_inv_match:
  assumes inv: "fa_inv p f i j" and m: "p ! i = p ! j" and lt: "j < length p"
  shows "fa_inv p (f @ [i + 1]) (i + 1) (j + 1)"
proof -
  from inv have ij: "i < j" and lf: "length f = j" and j1: "1 \<le> j"
    and old: "\<forall>n<j. longest_border p (Suc n) (f ! n)"
    and pre: "\<forall>t<i. p ! t = p ! (j - i + t)"
    and ext: "\<forall>k. border p (Suc j) (Suc k) \<longrightarrow> k \<le> i"
    unfolding fa_inv_def by auto
  have pre': "\<forall>t<Suc i. p ! t = p ! (Suc j - Suc i + t)"
  proof (intro allI impI)
    fix t assume "t < Suc i"
    then consider "t < i" | "t = i" by linarith
    then show "p ! t = p ! (Suc j - Suc i + t)"
    proof cases
      case 1 then show ?thesis using pre by simp
    next
      case 2 then show ?thesis using m ij by simp
    qed
  qed
  have b: "border p (Suc j) (Suc i)"
    unfolding border_def using ij pre' by simp
  have lb: "longest_border p (Suc j) (Suc i)"
    unfolding longest_border_def
  proof (intro conjI allI impI)
    show "border p (Suc j) (Suc i)" by (rule b)
  next
    fix k' assume k': "border p (Suc j) k'"
    show "k' \<le> Suc i"
    proof (cases k')
      case 0 then show ?thesis by simp
    next
      case (Suc k) with k' ext show ?thesis by auto
    qed
  qed
  have new: "\<forall>n<Suc j. longest_border p (Suc n) ((f @ [Suc i]) ! n)"
    using old lb lf by (auto simp: nth_append less_Suc_eq)
  have ext': "\<forall>k. border p (Suc (Suc j)) (Suc k) \<longrightarrow> k \<le> Suc i"
    using lb border_shrink unfolding longest_border_def by blast
  show ?thesis
    unfolding fa_inv_def using ij lf lt new pre' ext' by simp
qed

lemma fa_inv_fallback:
  assumes inv: "fa_inv p f i j" and m: "p ! i \<noteq> p ! j" and pos: "0 < i"
  shows "fa_inv p f (f ! (i - 1)) j \<and> f ! (i - 1) < i"
proof -
  from inv have ij: "i < j" and lf: "length f = j" and j1: "1 \<le> j" and jl: "j \<le> length p"
    and old: "\<forall>n<j. longest_border p (Suc n) (f ! n)"
    and pre: "\<forall>t<i. p ! t = p ! (j - i + t)"
    and ext: "\<forall>k. border p (Suc j) (Suc k) \<longrightarrow> k \<le> i"
    unfolding fa_inv_def by auto
  define i' where "i' = f ! (i - 1)"
  have "i - 1 < j" using ij by simp
  with old have "longest_border p (Suc (i - 1)) i'"
    unfolding i'_def by blast
  then have lb: "longest_border p i i'" using pos by simp
  then have bi: "border p i i'" and mx: "\<forall>k. border p i k \<longrightarrow> k \<le> i'"
    unfolding longest_border_def by auto
  from bi have lt: "i' < i" and eqs: "\<forall>t<i'. p ! t = p ! (i - i' + t)"
    unfolding border_def by auto
  have pre': "\<forall>t<i'. p ! t = p ! (j - i' + t)"
  proof (intro allI impI)
    fix t assume t: "t < i'"
    have "p ! t = p ! (i - i' + t)" using eqs t by simp
    also have "\<dots> = p ! (j - i + (i - i' + t))" using pre t lt by simp
    also have "j - i + (i - i' + t) = j - i' + t" using lt ij by simp
    finally show "p ! t = p ! (j - i' + t)" .
  qed
  have ext': "\<forall>k. border p (Suc j) (Suc k) \<longrightarrow> k \<le> i'"
  proof (intro allI impI)
    fix k assume k: "border p (Suc j) (Suc k)"
    then have "k \<le> i" using ext by simp
    moreover have "k \<noteq> i" using border_last[OF k] m by auto
    ultimately have ki: "k < i" by simp
    from k have keq: "\<forall>t<k. p ! t = p ! (j - k + t)"
      unfolding border_def by auto
    have "border p i k"
      unfolding border_def
    proof (intro conjI allI impI)
      show "k < i" by (rule ki)
    next
      fix t assume t: "t < k"
      have "p ! (i - k + t) = p ! (j - i + (i - k + t))" using pre t ki by simp
      also have "j - i + (i - k + t) = j - k + t" using ki ij by simp
      finally show "p ! t = p ! (i - k + t)" using keq t by simp
    qed
    then show "k \<le> i'" using mx by simp
  qed
  have "fa_inv p f i' j"
    unfolding fa_inv_def using j1 jl lf lt ij old pre' ext' by simp
  then show ?thesis using lt unfolding i'_def by simp
qed

lemma fa_inv_zero:
  assumes inv: "fa_inv p f 0 j" and m: "p ! 0 \<noteq> p ! j" and lt: "j < length p"
  shows "fa_inv p (f @ [0]) 0 (j + 1)"
proof -
  from inv have lf: "length f = j" and j1: "1 \<le> j"
    and old: "\<forall>n<j. longest_border p (Suc n) (f ! n)"
    and ext: "\<forall>k. border p (Suc j) (Suc k) \<longrightarrow> k \<le> 0"
    unfolding fa_inv_def by auto
  have lb: "longest_border p (Suc j) 0"
    unfolding longest_border_def
  proof (intro conjI allI impI)
    show "border p (Suc j) 0" unfolding border_def by simp
  next
    fix k' assume k': "border p (Suc j) k'"
    show "k' \<le> 0"
    proof (cases k')
      case 0 then show ?thesis by simp
    next
      case (Suc k)
      with k' ext have "k = 0" by auto
      with k' Suc have "p ! 0 = p ! j" using border_last by blast
      with m show ?thesis by simp
    qed
  qed
  have new: "\<forall>n<Suc j. longest_border p (Suc n) ((f @ [0]) ! n)"
    using old lb lf by (auto simp: nth_append less_Suc_eq)
  have ext': "\<forall>k. border p (Suc (Suc j)) (Suc k) \<longrightarrow> k \<le> 0"
    using lb border_shrink unfolding longest_border_def by blast
  show ?thesis
    unfolding fa_inv_def using lf lt new ext' by simp
qed

lemma get_failure_loop_total:
  "fa_inv p f i j \<Longrightarrow>
   \<exists>F. get_failure_loop p f i j = Some (Inr F) \<and> length F = length p \<and>
       (\<forall>n<length p. longest_border p (Suc n) (F ! n))"
proof (induction "2 * (length p - j) + i" arbitrary: f i j rule: less_induct)
  case less
  note inv = \<open>fa_inv p f i j\<close>
  from inv have ij: "i < j" and lf: "length f = j" and jl: "j \<le> length p"
    and old: "\<forall>n<j. longest_border p (Suc n) (f ! n)"
    unfolding fa_inv_def by auto
  show ?case
  proof (cases "j < length p")
    case False
    with jl have "j = length p" by simp
    then show ?thesis using lf old
      by (subst get_failure_loop.simps) simp
  next
    case True
    then have rd: "py_nth p i = Inr (p ! i)" "py_nth p j = Inr (p ! j)"
      using ij by (simp_all add: py_nth_def)
    show ?thesis
    proof (cases "p ! i = p ! j")
      case m: True
      have "\<exists>F. get_failure_loop p (f @ [i + 1]) (i + 1) (j + 1) = Some (Inr F) \<and>
          length F = length p \<and> (\<forall>n<length p. longest_border p (Suc n) (F ! n))"
        using True by (intro less.hyps fa_inv_match[OF inv m True]) linarith
      then show ?thesis using True rd m
        by (subst get_failure_loop.simps) simp
    next
      case m: False
      show ?thesis
      proof (cases "0 < i")
        case pos: True
        from fa_inv_fallback[OF inv m pos]
        have inv': "fa_inv p f (f ! (i - 1)) j" and lt: "f ! (i - 1) < i" by auto
        have rf: "py_nth f (i - 1) = Inr (f ! (i - 1))"
          using ij lf pos by (simp add: py_nth_def)
        have "\<exists>F. get_failure_loop p f (f ! (i - 1)) j = Some (Inr F) \<and>
          length F = length p \<and> (\<forall>n<length p. longest_border p (Suc n) (F ! n))"
          using lt by (intro less.hyps inv') linarith
        then show ?thesis using True rd m pos rf
          by (subst get_failure_loop.simps) simp
      next
        case z: False
        then have i0: "i = 0" by simp
        have "\<exists>F. get_failure_loop p (f @ [0]) 0 (j + 1) = Some (Inr F) \<and>
          length F = length p \<and> (\<forall>n<length p. longest_border p (Suc n) (F ! n))"
          using True i0 inv m by (intro less.hyps fa_inv_zero) auto
        then show ?thesis using True rd m i0
          by (subst get_failure_loop.simps) simp
      qed
    qed
  qed
qed

lemma get_failure_array_total:
  assumes "p \<noteq> []"
  shows "\<exists>F. get_failure_array p = Some (Inr F) \<and> length F = length p \<and>
       (\<forall>n<length p. longest_border p (Suc n) (F ! n))"
  unfolding get_failure_array_def
  by (rule get_failure_loop_total[OF fa_inv_init[OF assms]])

section \<open>Correctness of the scan\<close>

text \<open>\<open>matches_at p txt s\<close>: the pattern occurs in the text at offset \<open>s\<close>.\<close>

definition matches_at :: "'a list \<Rightarrow> 'a list \<Rightarrow> nat \<Rightarrow> bool" where
  "matches_at p txt s \<longleftrightarrow> s + length p \<le> length txt \<and> (\<forall>t<length p. txt ! (s + t) = p ! t)"

text \<open>
  The invariant of the scan loop at its test: the first \<open>j\<close> symbols of the pattern are the
  \<open>j\<close> symbols of the text before \<open>i\<close>, and the pattern occurs at no earlier offset.
\<close>

definition kmp_inv :: "'a list \<Rightarrow> 'a list \<Rightarrow> nat \<Rightarrow> nat \<Rightarrow> bool" where
  "kmp_inv p txt i j \<longleftrightarrow>
     j \<le> i \<and> i \<le> length txt \<and> j < length p \<and>
     (\<forall>t<j. p ! t = txt ! (i - j + t)) \<and>
     (\<forall>s<i - j. \<not> matches_at p txt s)"

lemma kmp_inv_init: "p \<noteq> [] \<Longrightarrow> kmp_inv p txt 0 0"
  unfolding kmp_inv_def by simp

lemma kmp_inv_found:
  assumes inv: "kmp_inv p txt i j" and lt: "i < length txt" and m: "p ! j = txt ! i"
    and last: "Suc j = length p"
  shows "matches_at p txt (i - j)"
proof -
  from inv have ji: "j \<le> i" and pre: "\<forall>t<j. p ! t = txt ! (i - j + t)"
    unfolding kmp_inv_def by auto
  have "\<forall>t<length p. txt ! (i - j + t) = p ! t"
  proof (intro allI impI)
    fix t assume "t < length p"
    then consider "t < j" | "t = j" using last by linarith
    then show "txt ! (i - j + t) = p ! t"
    proof cases
      case 1 then show ?thesis using pre by simp
    next
      case 2 then show ?thesis using m ji by simp
    qed
  qed
  then show ?thesis unfolding matches_at_def using lt ji last by simp
qed

lemma kmp_inv_advance:
  assumes inv: "kmp_inv p txt i j" and lt: "i < length txt" and m: "p ! j = txt ! i"
    and nl: "Suc j \<noteq> length p"
  shows "kmp_inv p txt (i + 1) (j + 1)"
proof -
  from inv have ji: "j \<le> i" and jl: "j < length p"
    and pre: "\<forall>t<j. p ! t = txt ! (i - j + t)"
    and no: "\<forall>s<i - j. \<not> matches_at p txt s"
    unfolding kmp_inv_def by auto
  have "\<forall>t<Suc j. p ! t = txt ! (Suc i - Suc j + t)"
  proof (intro allI impI)
    fix t assume "t < Suc j"
    then consider "t < j" | "t = j" by linarith
    then show "p ! t = txt ! (Suc i - Suc j + t)"
    proof cases
      case 1 then show ?thesis using pre by simp
    next
      case 2 then show ?thesis using m ji by simp
    qed
  qed
  then show ?thesis unfolding kmp_inv_def using ji jl lt nl no by simp
qed

lemma kmp_inv_skip:
  assumes inv: "kmp_inv p txt i 0" and lt: "i < length txt" and m: "p ! 0 \<noteq> txt ! i"
  shows "kmp_inv p txt (i + 1) 0"
proof -
  from inv have jl: "0 < length p" and no: "\<forall>s<i. \<not> matches_at p txt s"
    unfolding kmp_inv_def by auto
  have "\<not> matches_at p txt i"
    unfolding matches_at_def using m jl by (metis add.right_neutral)
  with no have "\<forall>s<Suc i. \<not> matches_at p txt s"
    by (auto simp: less_Suc_eq)
  then show ?thesis unfolding kmp_inv_def using jl lt by simp
qed

lemma kmp_inv_fallback:
  assumes inv: "kmp_inv p txt i j" and lt: "i < length txt" and m: "p ! j \<noteq> txt ! i"
    and lb: "longest_border p j k"
  shows "kmp_inv p txt i k"
proof -
  from inv have ji: "j \<le> i" and jl: "j < length p"
    and pre: "\<forall>t<j. p ! t = txt ! (i - j + t)"
    and no: "\<forall>s<i - j. \<not> matches_at p txt s"
    unfolding kmp_inv_def by auto
  from lb have kj: "k < j" and beq: "\<forall>t<k. p ! t = p ! (j - k + t)"
    and mx: "\<forall>k'. border p j k' \<longrightarrow> k' \<le> k"
    unfolding longest_border_def border_def by auto
  have pre': "\<forall>t<k. p ! t = txt ! (i - k + t)"
  proof (intro allI impI)
    fix t assume t: "t < k"
    have "p ! t = p ! (j - k + t)" using beq t by simp
    also have "\<dots> = txt ! (i - j + (j - k + t))" using pre t kj by simp
    also have "i - j + (j - k + t) = i - k + t" using kj ji by simp
    finally show "p ! t = txt ! (i - k + t)" .
  qed
  have no': "\<forall>s<i - k. \<not> matches_at p txt s"
  proof (intro allI impI notI)
    fix s assume s: "s < i - k" and ms: "matches_at p txt s"
    from no ms have ge: "i - j \<le> s" by (meson not_le)
    have "s \<noteq> i - j"
    proof
      assume e: "s = i - j"
      from ms jl have "txt ! (s + j) = p ! j" unfolding matches_at_def by simp
      with e ji m show False by simp
    qed
    with ge have gt: "i - j < s" by simp
    define k' where "k' = i - s"
    have k'j: "k' < j" and kk': "k < k'" using gt s ji unfolding k'_def by linarith+
    have "border p j k'"
      unfolding border_def
    proof (intro conjI allI impI)
      show "k' < j" by (rule k'j)
    next
      fix t assume t: "t < k'"
      have "p ! (j - k' + t) = txt ! (i - j + (j - k' + t))" using pre t k'j by simp
      also have "i - j + (j - k' + t) = s + t" using k'j ji s unfolding k'_def by linarith
      also have "txt ! (s + t) = p ! t" using ms t k'j jl unfolding matches_at_def by simp
      finally show "p ! t = p ! (j - k' + t)" by simp
    qed
    with mx have "k' \<le> k" by simp
    with kk' show False by simp
  qed
  show ?thesis unfolding kmp_inv_def using ji jl lt kj pre' no' by simp
qed

lemma kmp_inv_exit:
  assumes inv: "kmp_inv p txt (length txt) j"
  shows "\<not> matches_at p txt s"
proof
  assume ms: "matches_at p txt s"
  from inv have jl: "j < length p" and ji: "j \<le> length txt"
    and no: "\<forall>s<length txt - j. \<not> matches_at p txt s"
    unfolding kmp_inv_def by auto
  from ms have "s + length p \<le> length txt" unfolding matches_at_def by simp
  with jl have "s < length txt - j" by linarith
  with no ms show False by simp
qed


lemma kmp_body_cases:
  assumes F: "length F = length p" "\<forall>n<length p. longest_border p (Suc n) (F ! n)"
    and inv: "kmp_inv p txt i j" and lt: "i < length txt"
  shows "(kmp_body p F txt i j = Inr (Return True) \<and> matches_at p txt (i - j)) \<or>
         (\<exists>i' j'. kmp_body p F txt i j = Inr (Continue i' j') \<and> kmp_inv p txt i' j' \<and>
            2 * (length txt - i') + j' < 2 * (length txt - i) + j)"
proof -
  from inv have ji: "j \<le> i" and jl: "j < length p"
    unfolding kmp_inv_def by auto
  have rd: "py_nth p j = Inr (p ! j)" "py_nth txt i = Inr (txt ! i)"
    using jl lt by (simp_all add: py_nth_def)
  show ?thesis
  proof (cases "p ! j = txt ! i")
    case m: True
    show ?thesis
    proof (cases "Suc j = length p")
      case last: True
      have "matches_at p txt (i - j)" by (rule kmp_inv_found[OF inv lt m last])
      moreover have "int j = int (length p) - 1" using last by linarith
      ultimately show ?thesis using rd m by (simp add: kmp_body_def)
    next
      case nl: False
      have "kmp_inv p txt (i + 1) (j + 1)" by (rule kmp_inv_advance[OF inv lt m nl])
      moreover have "int j \<noteq> int (length p) - 1" using nl by linarith
      moreover have "2 * (length txt - (i + 1)) + (j + 1) < 2 * (length txt - i) + j"
        using lt by linarith
      ultimately show ?thesis using rd m by (simp add: kmp_body_def)
    qed
  next
    case m: False
    show ?thesis
    proof (cases "0 < j")
      case pos: True
      have "j - 1 < length p" using jl by simp
      with F have "longest_border p (Suc (j - 1)) (F ! (j - 1))" by blast
      then have lb: "longest_border p j (F ! (j - 1))" using pos by simp
      then have "F ! (j - 1) < j" unfolding longest_border_def border_def by simp
      then have "2 * (length txt - i) + F ! (j - 1) < 2 * (length txt - i) + j" by simp
      moreover have "py_nth F (j - 1) = Inr (F ! (j - 1))"
        using jl F pos by (simp add: py_nth_def)
      moreover have "kmp_inv p txt i (F ! (j - 1))" by (rule kmp_inv_fallback[OF inv lt m lb])
      ultimately show ?thesis using rd m pos by (simp add: kmp_body_def)
    next
      case z: False
      then have j0: "j = 0" by simp
      have "kmp_inv p txt (i + 1) 0" using inv lt m j0 by (intro kmp_inv_skip) auto
      moreover have "2 * (length txt - (i + 1)) < 2 * (length txt - i)" using lt by linarith
      ultimately show ?thesis using rd m j0 by (simp add: kmp_body_def)
    qed
  qed
qed

lemma kmp_loop_total:
  assumes F: "length F = length p" "\<forall>n<length p. longest_border p (Suc n) (F ! n)"
  shows "kmp_inv p txt i j \<Longrightarrow>
   kmp_loop p F txt i j = Some (Inr (\<exists>s. matches_at p txt s))"
proof (induction "2 * (length txt - i) + j" arbitrary: i j rule: less_induct)
  case less
  note inv = \<open>kmp_inv p txt i j\<close>
  show ?case
  proof (cases "i < length txt")
    case False
    moreover from inv have "i \<le> length txt" unfolding kmp_inv_def by simp
    ultimately have e: "i = length txt" by simp
    have "\<not> (\<exists>s. matches_at p txt s)" using kmp_inv_exit inv e by blast
    then show ?thesis using False
      by (subst kmp_loop.simps) simp
  next
    case True
    from kmp_body_cases[OF F inv True] show ?thesis
    proof (elim disjE conjE exE)
      assume "kmp_body p F txt i j = Inr (Return True)" "matches_at p txt (i - j)"
      moreover from this have "\<exists>s. matches_at p txt s" by blast
      ultimately show ?thesis using True
        by (subst kmp_loop.simps) simp
    next
      fix i' j'
      assume b: "kmp_body p F txt i j = Inr (Continue i' j')" and inv': "kmp_inv p txt i' j'"
        and dec: "2 * (length txt - i') + j' < 2 * (length txt - i) + j"
      have "kmp_loop p F txt i' j' = Some (Inr (\<exists>s. matches_at p txt s))"
        by (rule less.hyps[OF dec inv'])
      then show ?thesis using True b
        by (subst kmp_loop.simps) simp
    qed
  qed
qed

lemma kmp_total:
  assumes "p \<noteq> []"
  shows "kmp p txt = Some (Inr (\<exists>s. matches_at p txt s))"
proof -
  from get_failure_array_total[OF assms] obtain F where
    F: "get_failure_array p = Some (Inr F)" "length F = length p"
       "\<forall>n<length p. longest_border p (Suc n) (F ! n)" by blast
  show ?thesis unfolding kmp_def using F(1) kmp_loop_total[OF F(2,3) kmp_inv_init[OF assms]]
    by simp
qed

lemma kmp_reach_inv:
  assumes F: "length F = length p" "\<forall>n<length p. longest_border p (Suc n) (F ! n)"
    and ne: "p \<noteq> []"
  shows "kmp_reach p F txt i j \<Longrightarrow> kmp_inv p txt i j"
proof (induction rule: kmp_reach.induct)
  case start
  show ?case by (rule kmp_inv_init[OF ne])
next
  case (step i j i' j')
  from kmp_body_cases[OF F step.IH step.hyps(2)] step.hyps(3) show ?case by auto
qed

section \<open>Reference notions for the matcher and the failure array\<close>

text \<open>
  The naive scan the matcher is cross-checked against: try every offset of the text and
  compare the pattern with the symbols found there.
\<close>

definition naive_search :: "'a list \<Rightarrow> 'a list \<Rightarrow> bool" where
  "naive_search pattern text =
     list_ex (\<lambda>s. take (length pattern) (drop s text) = pattern) [0..<Suc (length text)]"

text \<open>
  \<open>prefix_suffix w k\<close>: the first \<open>k\<close> symbols of \<open>w\<close> are a proper prefix of \<open>w\<close> that is
  also a suffix of \<open>w\<close>; \<open>longest_prefix_suffix w k\<close>: and no longer one exists.
\<close>

definition prefix_suffix :: "'a list \<Rightarrow> nat \<Rightarrow> bool" where
  "prefix_suffix w k \<longleftrightarrow> k < length w \<and> take k w = drop (length w - k) w"

definition longest_prefix_suffix :: "'a list \<Rightarrow> nat \<Rightarrow> bool" where
  "longest_prefix_suffix w k \<longleftrightarrow>
     prefix_suffix w k \<and> (\<forall>k'. prefix_suffix w k' \<longrightarrow> k' \<le> k)"

lemma matches_at_take_drop:
  assumes "s \<le> length txt"
  shows "matches_at p txt s \<longleftrightarrow> take (length p) (drop s txt) = p"
proof
  assume m: "matches_at p txt s"
  then have le: "s + length p \<le> length txt" and eq: "\<forall>t<length p. txt ! (s + t) = p ! t"
    unfolding matches_at_def by auto
  show "take (length p) (drop s txt) = p"
  proof (rule nth_equalityI)
    show "length (take (length p) (drop s txt)) = length p" using le by simp
  next
    fix t assume "t < length (take (length p) (drop s txt))"
    then have "t < length p" by simp
    then show "take (length p) (drop s txt) ! t = p ! t" using eq le by simp
  qed
next
  assume e: "take (length p) (drop s txt) = p"
  then have "length (take (length p) (drop s txt)) = length p" by simp
  then have le: "s + length p \<le> length txt" using assms by simp
  have "\<forall>t<length p. txt ! (s + t) = p ! t"
  proof (intro allI impI)
    fix t assume t: "t < length p"
    then have "p ! t = take (length p) (drop s txt) ! t" using e by simp
    also have "\<dots> = txt ! (s + t)" using t le by simp
    finally show "txt ! (s + t) = p ! t" by simp
  qed
  with le show "matches_at p txt s" unfolding matches_at_def by simp
qed

lemma matches_at_bound: "matches_at p txt s \<Longrightarrow> s \<le> length txt"
  unfolding matches_at_def by simp

lemma naive_search_iff: "naive_search p txt \<longleftrightarrow> (\<exists>s. matches_at p txt s)"
proof -
  have "set [0..<Suc (length txt)] = {s. s \<le> length txt}" by auto
  then have "naive_search p txt \<longleftrightarrow> (\<exists>s\<le>length txt. take (length p) (drop s txt) = p)"
    unfolding naive_search_def list_ex_iff by blast
  also have "\<dots> \<longleftrightarrow> (\<exists>s\<le>length txt. matches_at p txt s)"
    using matches_at_take_drop by blast
  also have "\<dots> \<longleftrightarrow> (\<exists>s. matches_at p txt s)"
    using matches_at_bound by blast
  finally show ?thesis .
qed

lemma matches_at_iff_append: "(\<exists>s. matches_at p txt s) \<longleftrightarrow> (\<exists>xs ys. txt = xs @ p @ ys)"
proof
  assume "\<exists>s. matches_at p txt s"
  then obtain s where m: "matches_at p txt s" by blast
  then have le: "s \<le> length txt" by (rule matches_at_bound)
  with m have "take (length p) (drop s txt) = p" by (simp add: matches_at_take_drop)
  then have "drop s txt = p @ drop (length p) (drop s txt)"
    by (metis append_take_drop_id)
  then have "txt = take s txt @ p @ drop (length p) (drop s txt)"
    by (metis append_take_drop_id)
  then show "\<exists>xs ys. txt = xs @ p @ ys" by blast
next
  assume "\<exists>xs ys. txt = xs @ p @ ys"
  then obtain xs ys where e: "txt = xs @ p @ ys" by blast
  have "matches_at p txt (length xs)"
    unfolding matches_at_def using e by (simp add: nth_append)
  then show "\<exists>s. matches_at p txt s" by blast
qed

lemma border_prefix_suffix:
  assumes "n \<le> length p"
  shows "border p n k \<longleftrightarrow> prefix_suffix (take n p) k"
proof (cases "k < n")
  case False
  then show ?thesis using assms unfolding border_def prefix_suffix_def by simp
next
  case True
  have len: "length (take n p) = n" using assms by simp
  have "take k (take n p) = drop (n - k) (take n p) \<longleftrightarrow> (\<forall>t<k. p ! t = p ! (n - k + t))"
  proof
    assume e: "take k (take n p) = drop (n - k) (take n p)"
    show "\<forall>t<k. p ! t = p ! (n - k + t)"
    proof (intro allI impI)
      fix t assume t: "t < k"
      have "p ! t = take k (take n p) ! t" using t True by simp
      also have "\<dots> = drop (n - k) (take n p) ! t" using e by simp
      also have "\<dots> = p ! (n - k + t)" using t True assms by simp
      finally show "p ! t = p ! (n - k + t)" .
    qed
  next
    assume a: "\<forall>t<k. p ! t = p ! (n - k + t)"
    show "take k (take n p) = drop (n - k) (take n p)"
    proof (rule nth_equalityI)
      show "length (take k (take n p)) = length (drop (n - k) (take n p))"
        using True assms by simp
    next
      fix t assume "t < length (take k (take n p))"
      then have t: "t < k" by simp
      then show "take k (take n p) ! t = drop (n - k) (take n p) ! t"
        using a True assms by simp
    qed
  qed
  then show ?thesis unfolding border_def prefix_suffix_def using True len by simp
qed

lemma longest_border_prefix_suffix:
  assumes "n \<le> length p"
  shows "longest_border p n k \<longleftrightarrow> longest_prefix_suffix (take n p) k"
  unfolding longest_border_def longest_prefix_suffix_def
  using border_prefix_suffix[OF assms] by simp

text \<open>
  Claim C1. For every text and every non-empty pattern, \<^verbatim>\<open>kmp\<close> returns (it neither
  raises nor loops), and it returns \<^verbatim>\<open>True\<close> exactly when the naive scan finds the
  pattern, which is exactly when the pattern is a contiguous part of the text.
\<close>

theorem kmp_agrees_with_naive_scan:
  "pattern \<noteq> [] \<Longrightarrow>
   kmp pattern text = Some (Inr (naive_search pattern text)) \<and>
   (naive_search pattern text \<longleftrightarrow> (\<exists>xs ys. text = xs @ pattern @ ys))"
  using kmp_total[of pattern "text"] naive_search_iff[of pattern "text"]
    matches_at_iff_append[of pattern "text"]
  by simp

theorem kmp_agrees_with_naive_scan_witness:
  "''ab'' \<noteq> [] \<and> kmp ''ab'' ''cab'' = Some (Inr True) \<and> ''cab'' = ''c'' @ ''ab'' @ []"
proof -
  have "naive_search ''ab'' ''cab''" by code_simp
  then show ?thesis
    using kmp_agrees_with_naive_scan[of "''ab''" "''cab''"] by simp
qed

text \<open>
  Claim C5. For a non-empty pattern that is longer than the text, and in particular for
  the empty text, \<^verbatim>\<open>kmp\<close> returns \<^verbatim>\<open>False\<close> and raises nothing.
\<close>

theorem kmp_pattern_longer_than_text:
  "pattern \<noteq> [] \<Longrightarrow>
   (length text < length pattern \<longrightarrow> kmp pattern text = Some (Inr False)) \<and>
   kmp pattern [] = Some (Inr False)"
proof -
  assume ne: "pattern \<noteq> []"
  have no: "length t < length pattern \<Longrightarrow> \<not> (\<exists>s. matches_at pattern t s)" for t :: "'a list"
    unfolding matches_at_def by auto
  have "length ([] :: 'a list) < length pattern" using ne by simp
  then show ?thesis
    using kmp_total[OF ne, of "text"] kmp_total[OF ne, of "[]"] no[of "text"] no[of "[]"]
    by simp
qed

theorem kmp_pattern_longer_than_text_witness:
  "''abc'' \<noteq> [] \<and> length ''ab'' < length ''abc'' \<and> kmp ''abc'' ''ab'' = Some (Inr False) \<and>
   kmp ''abc'' [] = Some (Inr False)"
  using kmp_pattern_longer_than_text[of "''abc''" "''ab''"] by simp

text \<open>
  Claim C6. For every non-empty pattern, \<^verbatim>\<open>get_failure_array\<close> returns a table as long as
  the pattern, whose entry \<open>0\<close> is \<open>0\<close>, and whose entry \<open>j\<close> is at most \<open>j\<close> and is the
  length of the longest proper prefix of the first \<open>j + 1\<close> symbols that is also their
  suffix.
\<close>

theorem get_failure_array_longest_border:
  "pattern \<noteq> [] \<Longrightarrow>
   \<exists>failure. get_failure_array pattern = Some (Inr failure) \<and>
     length failure = length pattern \<and> failure ! 0 = 0 \<and>
     (\<forall>j<length pattern.
        failure ! j \<le> j \<and> longest_prefix_suffix (take (Suc j) pattern) (failure ! j))"
proof -
  assume ne: "pattern \<noteq> []"
  from get_failure_array_total[OF ne] obtain F where
    F: "get_failure_array pattern = Some (Inr F)" "length F = length pattern"
       "\<forall>n<length pattern. longest_border pattern (Suc n) (F ! n)" by blast
  have a: "F ! j \<le> j \<and> longest_prefix_suffix (take (Suc j) pattern) (F ! j)"
    if j: "j < length pattern" for j
  proof -
    from F(3) j have lb: "longest_border pattern (Suc j) (F ! j)" by blast
    then have "F ! j < Suc j" unfolding longest_border_def border_def by simp
    moreover have "longest_prefix_suffix (take (Suc j) pattern) (F ! j)"
      using lb j by (simp add: longest_border_prefix_suffix)
    ultimately show ?thesis by simp
  qed
  have "0 < length pattern" using ne by simp
  then have "F ! 0 \<le> 0" using a by blast
  then show ?thesis using F(1,2) a by auto
qed

theorem get_failure_array_longest_border_witness:
  "''aabaabaaa'' \<noteq> [] \<and>
   get_failure_array ''aabaabaaa'' = Some (Inr [0, 1, 0, 1, 2, 3, 4, 5, 2]) \<and>
   (8::nat) < length ''aabaabaaa'' \<and>
   longest_prefix_suffix (take (Suc 8) ''aabaabaaa'') ([0, 1, 0, 1, 2, 3, 4, 5, 2::nat] ! 8)"
proof -
  have g: "get_failure_array ''aabaabaaa'' = Some (Inr [0, 1, 0, 1, 2, 3, 4, 5, 2])"
    by code_simp
  from get_failure_array_longest_border[of "''aabaabaaa''"] obtain F where
    F: "get_failure_array ''aabaabaaa'' = Some (Inr F)"
       "\<forall>j<length ''aabaabaaa''. F ! j \<le> j \<and>
          longest_prefix_suffix (take (Suc j) ''aabaabaaa'') (F ! j)" by auto
  from F(1) g have e: "F = [0, 1, 0, 1, 2, 3, 4, 5, 2]" by simp
  have l: "(8::nat) < length ''aabaabaaa''" by simp
  from F(2) l have "longest_prefix_suffix (take (Suc 8) ''aabaabaaa'') (F ! 8)" by blast
  with e g l show ?thesis by blast
qed

text \<open>
  Claim C4 says that an empty pattern is rejected by both functions. Neither function
  tests for it: \<^verbatim>\<open>get_failure_array("")\<close> returns \<^verbatim>\<open>[0]\<close> and \<^verbatim>\<open>kmp("", "")\<close> returns
  \<^verbatim>\<open>False\<close>.
\<close>

theorem empty_pattern_not_rejected:
  "get_failure_array ([] :: char list) = Some (Inr [0]) \<and>
   kmp ([] :: char list) [] = Some (Inr False)"
  by (simp add: kmp_def get_failure_array_def get_failure_loop.simps kmp_loop.simps)

text \<open>
  Claim C4, as the code behaves. On the empty pattern \<^verbatim>\<open>get_failure_array\<close> returns
  \<^verbatim>\<open>[0]\<close> without an error; \<^verbatim>\<open>kmp\<close> returns \<^verbatim>\<open>False\<close> on the empty text, and on every
  non-empty text it raises \<^verbatim>\<open>IndexError\<close> at its first read of \<^verbatim>\<open>pattern[0]\<close>.
\<close>

theorem empty_pattern_behaviour:
  "get_failure_array ([] :: 'a list) = Some (Inr [0]) \<and>
   kmp ([] :: 'a list) [] = Some (Inr False) \<and>
   (text \<noteq> [] \<longrightarrow> kmp ([] :: 'a list) text = Some (Inl IndexError))"
  by (simp add: kmp_def get_failure_array_def get_failure_loop.simps kmp_loop.simps
      kmp_body_def py_nth_def)

theorem empty_pattern_behaviour_witness:
  "''a'' \<noteq> [] \<and> kmp [] ''a'' = Some (Inl IndexError)"
  using empty_pattern_behaviour[of "''a''"] by simp

text \<open>
  Claim C10. For a non-empty pattern, every pair of cursors \<open>(i, j)\<close> the scan loop of
  \<^verbatim>\<open>kmp\<close> reaches satisfies \<open>j \<le> i\<close> and \<open>j < len(pattern)\<close> (and \<open>0 \<le> j\<close>, the cursors
  being natural numbers); when the loop body runs (\<open>i < len(text)\<close>) the reads
  \<^verbatim>\<open>pattern[j]\<close> and \<^verbatim>\<open>text[i]\<close> are in range and the body raises nothing; and \<^verbatim>\<open>kmp\<close>
  returns a boolean, whatever the lengths of pattern and text.
\<close>

theorem kmp_scan_in_bounds:
  "pattern \<noteq> [] \<Longrightarrow>
   (\<exists>b. kmp pattern text = Some (Inr b)) \<and>
   (\<exists>failure. get_failure_array pattern = Some (Inr failure) \<and>
      (\<forall>i j. kmp_reach pattern failure text i j \<longrightarrow>
         j \<le> i \<and> j < length pattern \<and> i \<le> length text \<and>
         (i < length text \<longrightarrow>
            py_nth pattern j = Inr (pattern ! j) \<and> py_nth text i = Inr (text ! i) \<and>
            (\<forall>e. kmp_body pattern failure text i j \<noteq> Inl e))))"
proof -
  assume ne: "pattern \<noteq> []"
  from get_failure_array_total[OF ne] obtain F where
    F: "get_failure_array pattern = Some (Inr F)" "length F = length pattern"
       "\<forall>n<length pattern. longest_border pattern (Suc n) (F ! n)" by blast
  have r: "j \<le> i \<and> j < length pattern \<and> i \<le> length text \<and>
         (i < length text \<longrightarrow>
            py_nth pattern j = Inr (pattern ! j) \<and> py_nth text i = Inr (text ! i) \<and>
            (\<forall>e. kmp_body pattern F text i j \<noteq> Inl e))"
    if re: "kmp_reach pattern F text i j" for i j
  proof -
    have inv: "kmp_inv pattern text i j" by (rule kmp_reach_inv[OF F(2,3) ne re])
    then have b: "j \<le> i" "j < length pattern" "i \<le> length text"
      unfolding kmp_inv_def by auto
    have "\<forall>e. kmp_body pattern F text i j \<noteq> Inl e" if "i < length text"
      using kmp_body_cases[OF F(2,3) inv that] by auto
    then show ?thesis using b by (simp add: py_nth_def)
  qed
  have "\<exists>b. kmp pattern text = Some (Inr b)" using kmp_total[OF ne] by simp
  then show ?thesis using F(1) r by blast
qed

theorem kmp_scan_in_bounds_witness:
  "''ab'' \<noteq> [] \<and> get_failure_array ''ab'' = Some (Inr [0, 0]) \<and>
   kmp_reach ''ab'' [0, 0] ''a'' 1 1 \<and> (1::nat) < length ''ab'' \<and>
   kmp ''ab'' ''a'' = Some (Inr False)"
proof -
  have g: "get_failure_array ''ab'' = Some (Inr [0, 0])" by code_simp
  have "kmp_body ''ab'' [0, 0] ''a'' 0 0 = Inr (Continue 1 1)"
    by (simp add: kmp_body_def py_nth_def)
  then have re: "kmp_reach ''ab'' [0, 0] ''a'' 1 1"
    using kmp_reach.step[OF kmp_reach.start, of "''a''" "''ab''" "[0, 0]" 1 1] by simp
  have k: "kmp ''ab'' ''a'' = Some (Inr False)" by code_simp
  show ?thesis
    using kmp_scan_in_bounds[of "''ab''" "''a''"] g re k by simp
qed

section \<open>Minimum-cost string conversion: \<^verbatim>\<open>strings/min_cost_string_conversion.py\<close>\<close>

text \<open>
  The two tables are lists of rows. \<^verbatim>\<open>table[i][j] = v\<close> is \<open>set2 table i j v\<close> and
  \<^verbatim>\<open>table[i][j]\<close> is \<open>table ! i ! j\<close>. In \<^verbatim>\<open>compute_transform_tables\<close> the tables have
  \<open>len(source) + 1\<close> rows of \<open>len(destination) + 1\<close> cells from their creation on, and
  every index is taken from \<^verbatim>\<open>range(1, len + 1)\<close> or is such an index minus one, so no
  subscript of that function leaves the tables or the two strings (lemma
  \<open>compute_transform_tables_ref\<close> keeps the dimensions in its invariant). The costs are
  Python integers. An operation is the string the source builds: \<^verbatim>\<open>"C" + c\<close>,
  \<^verbatim>\<open>"R" + c + c'\<close>, \<^verbatim>\<open>"D" + c\<close> or \<^verbatim>\<open>"I" + c\<close>, and \<^verbatim>\<open>"0"\<close> for the untouched cell.
\<close>

definition set2 :: "'v list list \<Rightarrow> nat \<Rightarrow> nat \<Rightarrow> 'v \<Rightarrow> 'v list list" where
  "set2 table i j v = table[i := (table ! i)[j := v]]"

type_synonym tables = "int list list \<times> string list list"

text \<open>The body of the innermost loop: the three candidates for the cell \<open>(i, j)\<close>.\<close>

definition fill_cell ::
  "string \<Rightarrow> string \<Rightarrow> int \<Rightarrow> int \<Rightarrow> int \<Rightarrow> int \<Rightarrow> nat \<Rightarrow> nat \<Rightarrow> tables \<Rightarrow> tables" where
  "fill_cell source_seq destination_seq copy_cost replace_cost delete_cost insert_cost i j =
     (\<lambda>(costs, ops).
        let (costs, ops) =
              (if source_seq ! (i - 1) = destination_seq ! (j - 1) then
                 (set2 costs i j (costs ! (i - 1) ! (j - 1) + copy_cost),
                  set2 ops i j [CHR ''C'', source_seq ! (i - 1)])
               else
                 (set2 costs i j (costs ! (i - 1) ! (j - 1) + replace_cost),
                  set2 ops i j ([CHR ''R'', source_seq ! (i - 1)] @ [destination_seq ! (j - 1)])));
            (costs, ops) =
              (if costs ! (i - 1) ! j + delete_cost < costs ! i ! j then
                 (set2 costs i j (costs ! (i - 1) ! j + delete_cost),
                  set2 ops i j [CHR ''D'', source_seq ! (i - 1)])
               else (costs, ops));
            (costs, ops) =
              (if costs ! i ! (j - 1) + insert_cost < costs ! i ! j then
                 (set2 costs i j (costs ! i ! (j - 1) + insert_cost),
                  set2 ops i j [CHR ''I'', destination_seq ! (j - 1)])
               else (costs, ops))
        in (costs, ops))"

definition compute_transform_tables ::
  "string \<Rightarrow> string \<Rightarrow> int \<Rightarrow> int \<Rightarrow> int \<Rightarrow> int \<Rightarrow> tables" where
  "compute_transform_tables source_string destination_string
       copy_cost replace_cost delete_cost insert_cost =
     (let source_seq = source_string;
          destination_seq = destination_string;
          len_source_seq = length source_seq;
          len_destination_seq = length destination_seq;
          costs = replicate (len_source_seq + 1) (replicate (len_destination_seq + 1) (0 :: int));
          ops = replicate (len_source_seq + 1) (replicate (len_destination_seq + 1) ''0'');
          (costs, ops) =
            fold (\<lambda>i (costs, ops).
                    (set2 costs i 0 (int i * delete_cost),
                     set2 ops i 0 [CHR ''D'', source_seq ! (i - 1)]))
              [1..<len_source_seq + 1] (costs, ops);
          (costs, ops) =
            fold (\<lambda>i (costs, ops).
                    (set2 costs 0 i (int i * insert_cost),
                     set2 ops 0 i [CHR ''I'', destination_seq ! (i - 1)]))
              [1..<len_destination_seq + 1] (costs, ops);
          (costs, ops) =
            fold (\<lambda>i. fold (fill_cell source_seq destination_seq
                               copy_cost replace_cost delete_cost insert_cost i)
                          [1..<len_destination_seq + 1])
              [1..<len_source_seq + 1] (costs, ops)
      in (costs, ops))"

text \<open>
  \<^verbatim>\<open>assemble_transformation\<close> takes any Python integers as coordinates, so its subscripts
  are Python subscripts: a negative index counts from the end, and an index outside the
  list raises \<^verbatim>\<open>IndexError\<close>, which also ends the callers.

  The function calls itself once for every operation of the path, and the interpreter
  refuses a nested call beyond its recursion limit with \<^verbatim>\<open>RecursionError\<close>. The limit is a
  setting of the interpreter (\<^verbatim>\<open>sys.getrecursionlimit()\<close>, 1000 frames for the whole stack
  unless the program changes it), not of this module, so it is a parameter of the model:
  \<open>depth\<close> is the number of further nested calls the interpreter still allows below the
  running call. In each branch the cell is read before the nested call is attempted, so
  an \<^verbatim>\<open>IndexError\<close> of the running call comes before a \<^verbatim>\<open>RecursionError\<close>.
\<close>

fun assemble_transformation ::
  "nat \<Rightarrow> string list list \<Rightarrow> int \<Rightarrow> int \<Rightarrow> error + string list" where
  "assemble_transformation depth ops i j =
     (if i = 0 \<and> j = 0 then Inr []
      else
        (case py_index ops i of
           Inl e \<Rightarrow> Inl e
         | Inr row \<Rightarrow>
            (case py_index row j of
               Inl e \<Rightarrow> Inl e
             | Inr cell \<Rightarrow>
                (case py_index cell 0 of
                   Inl e \<Rightarrow> Inl e
                 | Inr tag \<Rightarrow>
                    (if tag = CHR ''C'' \<or> tag = CHR ''R'' then
                       (case depth of
                          0 \<Rightarrow> Inl RecursionError
                        | Suc depth' \<Rightarrow>
                           (case assemble_transformation depth' ops (i - 1) (j - 1) of
                              Inl e \<Rightarrow> Inl e
                            | Inr seq \<Rightarrow> Inr (seq @ [cell])))
                     else if tag = CHR ''D'' then
                       (case depth of
                          0 \<Rightarrow> Inl RecursionError
                        | Suc depth' \<Rightarrow>
                           (case assemble_transformation depth' ops (i - 1) j of
                              Inl e \<Rightarrow> Inl e
                            | Inr seq \<Rightarrow> Inr (seq @ [cell])))
                     else
                       (case depth of
                          0 \<Rightarrow> Inl RecursionError
                        | Suc depth' \<Rightarrow>
                           (case assemble_transformation depth' ops i (j - 1) of
                              Inl e \<Rightarrow> Inl e
                            | Inr seq \<Rightarrow> Inr (seq @ [cell]))))))))"

declare assemble_transformation.simps [simp del]

section \<open>Correctness of the tables\<close>

text \<open>
  \<open>ref_cell\<close> is the recurrence the loops implement, as a function of the cell alone: it
  gives the cost and the operation of the cell \<open>(i, j)\<close>. The three loops fill the cells in
  an order in which every cell a candidate reads has its final value.
\<close>

definition dims :: "'v list list \<Rightarrow> nat \<Rightarrow> nat \<Rightarrow> bool" where
  "dims table m n \<longleftrightarrow> length table = m + 1 \<and> (\<forall>r\<le>m. length (table ! r) = n + 1)"

definition wf_tables :: "tables \<Rightarrow> nat \<Rightarrow> nat \<Rightarrow> bool" where
  "wf_tables st m n \<longleftrightarrow> dims (fst st) m n \<and> dims (snd st) m n"

fun ref_cell :: "string \<Rightarrow> string \<Rightarrow> int \<Rightarrow> int \<Rightarrow> int \<Rightarrow> int \<Rightarrow> nat \<Rightarrow> nat \<Rightarrow> int \<times> string" where
  "ref_cell s d cc rc dc ic 0 0 = (0, ''0'')"
| "ref_cell s d cc rc dc ic (Suc i) 0 = (int (Suc i) * dc, [CHR ''D'', s ! i])"
| "ref_cell s d cc rc dc ic 0 (Suc j) = (int (Suc j) * ic, [CHR ''I'', d ! j])"
| "ref_cell s d cc rc dc ic (Suc i) (Suc j) =
     (let c1 = (if s ! i = d ! j
                then (fst (ref_cell s d cc rc dc ic i j) + cc, [CHR ''C'', s ! i])
                else (fst (ref_cell s d cc rc dc ic i j) + rc, [CHR ''R'', s ! i, d ! j]));
          c2 = (if fst (ref_cell s d cc rc dc ic i (Suc j)) + dc < fst c1
                then (fst (ref_cell s d cc rc dc ic i (Suc j)) + dc, [CHR ''D'', s ! i])
                else c1)
      in if fst (ref_cell s d cc rc dc ic (Suc i) j) + ic < fst c2
         then (fst (ref_cell s d cc rc dc ic (Suc i) j) + ic, [CHR ''I'', d ! j])
         else c2)"

definition agree :: "string \<Rightarrow> string \<Rightarrow> int \<Rightarrow> int \<Rightarrow> int \<Rightarrow> int \<Rightarrow> tables \<Rightarrow> nat \<Rightarrow> nat \<Rightarrow> bool" where
  "agree s d cc rc dc ic st i j \<longleftrightarrow>
     (fst st ! i ! j, snd st ! i ! j) = ref_cell s d cc rc dc ic i j"

lemma length_set2: "length (set2 t i j v) = length t"
  unfolding set2_def by simp

lemma length_set2_row: "length (set2 t i j v ! r) = length (t ! r)"
  unfolding set2_def by (cases "i < length t") (auto simp: nth_list_update not_less list_update_beyond)

lemma set2_same: "i < length t \<Longrightarrow> j < length (t ! i) \<Longrightarrow> set2 t i j v ! i ! j = v"
  unfolding set2_def by simp

lemma set2_other: "a \<noteq> i \<or> b \<noteq> j \<Longrightarrow> set2 t i j v ! a ! b = t ! a ! b"
  unfolding set2_def by (cases "i < length t") (auto simp: nth_list_update not_less list_update_beyond)

lemma set2_dims: "dims t m n \<Longrightarrow> dims (set2 t i j v) m n"
  unfolding dims_def by (simp add: length_set2 length_set2_row)

lemma fold_upt_inv:
  assumes "Inv a st"
    and "\<And>k st. a \<le> k \<Longrightarrow> k < a + n \<Longrightarrow> Inv k st \<Longrightarrow> Inv (Suc k) (f k st)"
  shows "Inv (a + n) (fold f [a..<a + n] st)"
  using assms
proof (induction n)
  case 0
  then show ?case by simp
next
  case (Suc n)
  have "Inv (a + n) (fold f [a..<a + n] st)"
    using Suc.prems by (intro Suc.IH) auto
  then have "Inv (Suc (a + n)) (f (a + n) (fold f [a..<a + n] st))"
    using Suc.prems(2)[of "a + n"] by simp
  then show ?case by simp
qed

text \<open>One write of both tables at the cell (i, j).\<close>

lemma write_cell:
  assumes wf: "wf_tables (costs, ops) m n" and i: "i \<le> m" and j: "j \<le> n"
    and v: "(vc, vo) = ref_cell s d cc rc dc ic i j"
  shows "wf_tables (set2 costs i j vc, set2 ops i j vo) m n"
    and "agree s d cc rc dc ic (set2 costs i j vc, set2 ops i j vo) i j"
    and "a \<noteq> i \<or> b \<noteq> j \<Longrightarrow>
         agree s d cc rc dc ic (set2 costs i j vc, set2 ops i j vo) a b =
         agree s d cc rc dc ic (costs, ops) a b"
proof -
  from wf have dc': "dims costs m n" and do': "dims ops m n"
    unfolding wf_tables_def by auto
  show "wf_tables (set2 costs i j vc, set2 ops i j vo) m n"
    unfolding wf_tables_def using set2_dims[OF dc'] set2_dims[OF do'] by simp
  show "agree s d cc rc dc ic (set2 costs i j vc, set2 ops i j vo) i j"
    unfolding agree_def using dc' do' i j v by (simp add: dims_def set2_same)
  show "agree s d cc rc dc ic (set2 costs i j vc, set2 ops i j vo) a b =
         agree s d cc rc dc ic (costs, ops) a b" if "a \<noteq> i \<or> b \<noteq> j"
    unfolding agree_def using that by (simp add: set2_other)
qed

lemma fill_cell_step:
  assumes wf: "wf_tables st m n" and i: "i < m" and j: "j < n"
    and a1: "agree s d cc rc dc ic st i j"
    and a2: "agree s d cc rc dc ic st i (Suc j)"
    and a3: "agree s d cc rc dc ic st (Suc i) j"
  shows "wf_tables (fill_cell s d cc rc dc ic (Suc i) (Suc j) st) m n"
    and "agree s d cc rc dc ic (fill_cell s d cc rc dc ic (Suc i) (Suc j) st) (Suc i) (Suc j)"
    and "a \<noteq> Suc i \<or> b \<noteq> Suc j \<Longrightarrow>
         agree s d cc rc dc ic (fill_cell s d cc rc dc ic (Suc i) (Suc j) st) a b =
         agree s d cc rc dc ic st a b"
proof -
  obtain costs ops where st: "st = (costs, ops)" by (cases st)
  from wf st have dc': "dims costs m n" and do': "dims ops m n"
    unfolding wf_tables_def by auto
  have lc: "Suc i < length costs" "Suc j < length (costs ! Suc i)"
    and lo: "Suc i < length ops" "Suc j < length (ops ! Suc i)"
    using dc' do' i j unfolding dims_def by simp_all
  from a1 a2 a3 st
  have r1: "costs ! i ! j = fst (ref_cell s d cc rc dc ic i j)"
    and r2: "costs ! i ! Suc j = fst (ref_cell s d cc rc dc ic i (Suc j))"
    and r3: "costs ! Suc i ! j = fst (ref_cell s d cc rc dc ic (Suc i) j)"
    unfolding agree_def by (simp_all add: prod_eq_iff)
  show "wf_tables (fill_cell s d cc rc dc ic (Suc i) (Suc j) st) m n"
    unfolding wf_tables_def fill_cell_def st using dc' do'
    by (simp add: Let_def set2_dims)
  show "a \<noteq> Suc i \<or> b \<noteq> Suc j \<Longrightarrow>
         agree s d cc rc dc ic (fill_cell s d cc rc dc ic (Suc i) (Suc j) st) a b =
         agree s d cc rc dc ic st a b"
    unfolding agree_def fill_cell_def st
    by (simp add: Let_def set2_other)
  show "agree s d cc rc dc ic (fill_cell s d cc rc dc ic (Suc i) (Suc j) st) (Suc i) (Suc j)"
    unfolding agree_def fill_cell_def st
    using lc lo r1 r2 r3
    by (simp add: Let_def set2_same set2_other length_set2 length_set2_row)
qed

lemma fold_upt_inv1:
  assumes start: "Inv 1 st"
    and step: "\<And>k st. 1 \<le> k \<Longrightarrow> k \<le> n \<Longrightarrow> Inv k st \<Longrightarrow> Inv (Suc k) (f k st)"
  shows "Inv (Suc n) (fold f [1..<n + 1] st)"
proof -
  have s: "Inv (Suc k) (f k st')" if "1 \<le> k" "k < 1 + n" "Inv k st'" for k st'
    using step[of k st'] that by simp
  have "Inv (1 + n) (fold f [1..<1 + n] st)"
    by (rule fold_upt_inv[where Inv = Inv and a = 1 and n = n and f = f, OF start s])
  then show ?thesis by (simp add: add.commute)
qed

lemma ref_cell_column:
  "1 \<le> k \<Longrightarrow> (int k * dc, [CHR ''D'', s ! (k - 1)]) = ref_cell s d cc rc dc ic k 0"
  by (cases k) simp_all

lemma ref_cell_row:
  "1 \<le> k \<Longrightarrow> (int k * ic, [CHR ''I'', d ! (k - 1)]) = ref_cell s d cc rc dc ic 0 k"
  by (cases k) simp_all

lemma fill_row:
  assumes i: "i < m"
    and wf: "wf_tables st m n"
    and col: "\<forall>a\<le>m. agree s d cc rc dc ic st a 0"
    and rows: "\<forall>a\<le>i. \<forall>b\<le>n. agree s d cc rc dc ic st a b"
  shows "wf_tables (fold (fill_cell s d cc rc dc ic (Suc i)) [1..<n + 1] st) m n \<and>
         (\<forall>a\<le>m. agree s d cc rc dc ic (fold (fill_cell s d cc rc dc ic (Suc i)) [1..<n + 1] st) a 0) \<and>
         (\<forall>a\<le>Suc i. \<forall>b\<le>n.
             agree s d cc rc dc ic (fold (fill_cell s d cc rc dc ic (Suc i)) [1..<n + 1] st) a b)"
proof -
  define Inv where "Inv k st \<longleftrightarrow>
      wf_tables st m n \<and> (\<forall>a\<le>m. agree s d cc rc dc ic st a 0) \<and>
      (\<forall>a\<le>i. \<forall>b\<le>n. agree s d cc rc dc ic st a b) \<and>
      (\<forall>b<k. agree s d cc rc dc ic st (Suc i) b)" for k st
  have start: "Inv 1 st"
    unfolding Inv_def using wf col rows i by auto
  have step: "Inv (Suc k) (fill_cell s d cc rc dc ic (Suc i) k st')"
    if k1: "1 \<le> k" and kn: "k \<le> n" and inv: "Inv k st'" for k st'
  proof -
    from k1 obtain k' where k: "k = Suc k'" by (cases k) auto
    from inv have wf': "wf_tables st' m n"
      and col': "\<forall>a\<le>m. agree s d cc rc dc ic st' a 0"
      and rows': "\<forall>a\<le>i. \<forall>b\<le>n. agree s d cc rc dc ic st' a b"
      and cur: "\<forall>b<k. agree s d cc rc dc ic st' (Suc i) b"
      unfolding Inv_def by auto
    have k'n: "k' < n" using kn k by simp
    have a1: "agree s d cc rc dc ic st' i k'" using rows' k'n by simp
    have a2: "agree s d cc rc dc ic st' i (Suc k')" using rows' k'n by simp
    have a3: "agree s d cc rc dc ic st' (Suc i) k'" using cur k by simp
    note fc = fill_cell_step[OF wf' i k'n a1 a2 a3]
    show ?thesis
      unfolding Inv_def k
    proof (intro conjI allI impI)
      show "wf_tables (fill_cell s d cc rc dc ic (Suc i) (Suc k') st') m n" by (rule fc(1))
    next
      fix a assume "a \<le> m"
      then show "agree s d cc rc dc ic (fill_cell s d cc rc dc ic (Suc i) (Suc k') st') a 0"
        using fc(3)[of a 0] col' by simp
    next
      fix a b assume "a \<le> i" "b \<le> n"
      then show "agree s d cc rc dc ic (fill_cell s d cc rc dc ic (Suc i) (Suc k') st') a b"
        using fc(3)[of a b] rows' by simp
    next
      fix b assume "b < Suc (Suc k')"
      then consider "b = Suc k'" | "b < Suc k'" by linarith
      then show "agree s d cc rc dc ic (fill_cell s d cc rc dc ic (Suc i) (Suc k') st') (Suc i) b"
      proof cases
        case 1 then show ?thesis using fc(2) by simp
      next
        case 2 then show ?thesis using fc(3)[of "Suc i" b] cur k by simp
      qed
    qed
  qed
  have "Inv (Suc n) (fold (fill_cell s d cc rc dc ic (Suc i)) [1..<n + 1] st)"
    by (rule fold_upt_inv1[where Inv = Inv, OF start step])
  then show ?thesis
    unfolding Inv_def by (auto simp: le_Suc_eq less_Suc_eq_le)
qed

lemma compute_transform_tables_ref:
  "wf_tables (compute_transform_tables s d cc rc dc ic) (length s) (length d) \<and>
   (\<forall>i\<le>length s. \<forall>j\<le>length d.
      agree s d cc rc dc ic (compute_transform_tables s d cc rc dc ic) i j)"
proof -
  define m where "m = length s"
  define n where "n = length d"
  define st0 :: tables where
    "st0 = (replicate (m + 1) (replicate (n + 1) 0), replicate (m + 1) (replicate (n + 1) ''0''))"
  define f1 :: "nat \<Rightarrow> tables \<Rightarrow> tables" where
    "f1 = (\<lambda>i (costs, ops).
              (set2 costs i 0 (int i * dc), set2 ops i 0 [CHR ''D'', s ! (i - 1)]))"
  define f2 :: "nat \<Rightarrow> tables \<Rightarrow> tables" where
    "f2 = (\<lambda>i (costs, ops).
              (set2 costs 0 i (int i * ic), set2 ops 0 i [CHR ''I'', d ! (i - 1)]))"
  define f3 :: "nat \<Rightarrow> tables \<Rightarrow> tables" where
    "f3 = (\<lambda>i. fold (fill_cell s d cc rc dc ic i) [1..<n + 1])"
  define st1 where "st1 = fold f1 [1..<m + 1] st0"
  define st2 where "st2 = fold f2 [1..<n + 1] st1"
  define st3 where "st3 = fold f3 [1..<m + 1] st2"
  have res: "compute_transform_tables s d cc rc dc ic = st3"
    unfolding compute_transform_tables_def st3_def st2_def st1_def st0_def f1_def f2_def f3_def
      m_def n_def
    by (simp add: Let_def split_beta)
  have wf0: "wf_tables st0 m n"
    unfolding wf_tables_def dims_def st0_def
    by (simp del: replicate.simps)
  have ag0: "agree s d cc rc dc ic st0 0 0"
    unfolding agree_def st0_def by simp
  \<comment> \<open>first loop: column 0\<close>
  define Inv1 where "Inv1 k st \<longleftrightarrow>
      wf_tables st m n \<and> (\<forall>a<k. agree s d cc rc dc ic st a 0)" for k st
  have "Inv1 (Suc m) st1"
    unfolding st1_def
  proof (rule fold_upt_inv1[where Inv = Inv1])
    show "Inv1 1 st0" unfolding Inv1_def using wf0 ag0 by simp
  next
    fix k st assume k1: "1 \<le> k" and km: "k \<le> m" and inv: "Inv1 k st"
    obtain costs ops where st: "st = (costs, ops)" by (cases st)
    from inv st have wf: "wf_tables (costs, ops) m n"
      and old: "\<forall>a<k. agree s d cc rc dc ic (costs, ops) a 0"
      unfolding Inv1_def by auto
    note wc = write_cell[OF wf km le0 ref_cell_column[OF k1]]
    have "agree s d cc rc dc ic (f1 k st) a 0" if "a < Suc k" for a
    proof (cases "a = k")
      case True then show ?thesis unfolding f1_def st using wc(2) by simp
    next
      case False
      then have "a < k" using that by simp
      then show ?thesis unfolding f1_def st using wc(3)[of a 0] old False by simp
    qed
    then show "Inv1 (Suc k) (f1 k st)"
      unfolding Inv1_def using wc(1) by (simp add: f1_def st)
  qed
  then have wf1: "wf_tables st1 m n" and col1: "\<forall>a\<le>m. agree s d cc rc dc ic st1 a 0"
    unfolding Inv1_def by (auto simp: less_Suc_eq_le)
  \<comment> \<open>second loop: row 0\<close>
  define Inv2 where "Inv2 k st \<longleftrightarrow>
      wf_tables st m n \<and> (\<forall>a\<le>m. agree s d cc rc dc ic st a 0) \<and>
      (\<forall>b<k. agree s d cc rc dc ic st 0 b)" for k st
  have "Inv2 (Suc n) st2"
    unfolding st2_def
  proof (rule fold_upt_inv1[where Inv = Inv2])
    show "Inv2 1 st1" unfolding Inv2_def using wf1 col1 by simp
  next
    fix k st assume k1: "1 \<le> k" and kn: "k \<le> n" and inv: "Inv2 k st"
    obtain costs ops where st: "st = (costs, ops)" by (cases st)
    from inv st have wf: "wf_tables (costs, ops) m n"
      and col: "\<forall>a\<le>m. agree s d cc rc dc ic (costs, ops) a 0"
      and old: "\<forall>b<k. agree s d cc rc dc ic (costs, ops) 0 b"
      unfolding Inv2_def by auto
    note wc = write_cell[OF wf le0 kn ref_cell_row[OF k1]]
    have c: "agree s d cc rc dc ic (f2 k st) a 0" if "a \<le> m" for a
      unfolding f2_def st using wc(3)[of a 0] col that k1 by simp
    have "agree s d cc rc dc ic (f2 k st) 0 b" if "b < Suc k" for b
    proof (cases "b = k")
      case True then show ?thesis unfolding f2_def st using wc(2) by simp
    next
      case False
      then have "b < k" using that by simp
      then show ?thesis unfolding f2_def st using wc(3)[of 0 b] old False by simp
    qed
    then show "Inv2 (Suc k) (f2 k st)"
      unfolding Inv2_def using wc(1) c by (simp add: f2_def st)
  qed
  then have wf2: "wf_tables st2 m n" and col2: "\<forall>a\<le>m. agree s d cc rc dc ic st2 a 0"
    and row2: "\<forall>b\<le>n. agree s d cc rc dc ic st2 0 b"
    unfolding Inv2_def by (auto simp: less_Suc_eq_le)
  \<comment> \<open>third loop: the interior, row by row\<close>
  define Inv3 where "Inv3 k st \<longleftrightarrow>
      wf_tables st m n \<and> (\<forall>a\<le>m. agree s d cc rc dc ic st a 0) \<and>
      (\<forall>a<k. \<forall>b\<le>n. agree s d cc rc dc ic st a b)" for k st
  have "Inv3 (Suc m) st3"
    unfolding st3_def
  proof (rule fold_upt_inv1[where Inv = Inv3])
    show "Inv3 1 st2" unfolding Inv3_def using wf2 col2 row2 by simp
  next
    fix k st assume k1: "1 \<le> k" and km: "k \<le> m" and inv: "Inv3 k st"
    from k1 obtain k' where k: "k = Suc k'" by (cases k) auto
    from inv have wf: "wf_tables st m n"
      and col: "\<forall>a\<le>m. agree s d cc rc dc ic st a 0"
      and rows: "\<forall>a\<le>k'. \<forall>b\<le>n. agree s d cc rc dc ic st a b"
      unfolding Inv3_def k by (auto simp: less_Suc_eq_le)
    have "k' < m" using km k by simp
    from fill_row[OF this wf col rows]
    show "Inv3 (Suc k) (f3 k st)"
      unfolding Inv3_def f3_def k by (auto simp: less_Suc_eq_le)
  qed
  then show ?thesis
    unfolding Inv3_def res m_def n_def by (auto simp: less_Suc_eq_le)
qed

lemma ref_cell_interior_cases:
  "(s ! i = d ! j \<and> ref_cell s d cc rc dc ic (Suc i) (Suc j) =
      (fst (ref_cell s d cc rc dc ic i j) + cc, [CHR ''C'', s ! i])) \<or>
   (s ! i \<noteq> d ! j \<and> ref_cell s d cc rc dc ic (Suc i) (Suc j) =
      (fst (ref_cell s d cc rc dc ic i j) + rc, [CHR ''R'', s ! i, d ! j])) \<or>
   ref_cell s d cc rc dc ic (Suc i) (Suc j) =
      (fst (ref_cell s d cc rc dc ic i (Suc j)) + dc, [CHR ''D'', s ! i]) \<or>
   ref_cell s d cc rc dc ic (Suc i) (Suc j) =
      (fst (ref_cell s d cc rc dc ic (Suc i) j) + ic, [CHR ''I'', d ! j])"
  by (simp add: Let_def)

lemma ref_cost_interior:
  "fst (ref_cell s d cc rc dc ic (Suc i) (Suc j)) =
     min (fst (ref_cell s d cc rc dc ic i j) + (if s ! i = d ! j then cc else rc))
         (min (fst (ref_cell s d cc rc dc ic i (Suc j)) + dc)
              (fst (ref_cell s d cc rc dc ic (Suc i) j) + ic))"
  by (simp add: Let_def min_def)

lemma ref_op_interior:
  "snd (ref_cell s d cc rc dc ic (Suc i) (Suc j)) =
     (let diag = fst (ref_cell s d cc rc dc ic i j) + (if s ! i = d ! j then cc else rc);
          vert = fst (ref_cell s d cc rc dc ic i (Suc j)) + dc;
          horiz = fst (ref_cell s d cc rc dc ic (Suc i) j) + ic
      in if horiz < min diag vert then [CHR ''I'', d ! j]
         else if vert < diag then [CHR ''D'', s ! i]
         else if s ! i = d ! j then [CHR ''C'', s ! i]
         else [CHR ''R'', s ! i, d ! j])"
  by (simp add: Let_def min_def)

lemma tables_cells:
  assumes t: "(costs, ops) = compute_transform_tables s d cc rc dc ic"
    and i: "i \<le> length s" and j: "j \<le> length d"
  shows "costs ! i ! j = fst (ref_cell s d cc rc dc ic i j)"
    and "ops ! i ! j = snd (ref_cell s d cc rc dc ic i j)"
proof -
  from compute_transform_tables_ref[of s d cc rc dc ic] i j
  have "agree s d cc rc dc ic (compute_transform_tables s d cc rc dc ic) i j" by blast
  then have "(costs ! i ! j, ops ! i ! j) = ref_cell s d cc rc dc ic i j"
    unfolding agree_def t[symmetric] by simp
  then show "costs ! i ! j = fst (ref_cell s d cc rc dc ic i j)"
    and "ops ! i ! j = snd (ref_cell s d cc rc dc ic i j)"
    by (simp_all add: prod_eq_iff)
qed

lemma tables_dims:
  assumes t: "(costs, ops) = compute_transform_tables s d cc rc dc ic"
  shows "length costs = length s + 1" and "length ops = length s + 1"
    and "i \<le> length s \<Longrightarrow> length (costs ! i) = length d + 1"
    and "i \<le> length s \<Longrightarrow> length (ops ! i) = length d + 1"
proof -
  from compute_transform_tables_ref[of s d cc rc dc ic]
  have "wf_tables (costs, ops) (length s) (length d)"
    unfolding t by blast
  then show "length costs = length s + 1" and "length ops = length s + 1"
    and "i \<le> length s \<Longrightarrow> length (costs ! i) = length d + 1"
    and "i \<le> length s \<Longrightarrow> length (ops ! i) = length d + 1"
    unfolding wf_tables_def dims_def by simp_all
qed

text \<open>
  Claim C3. The cost matrix built by \<^verbatim>\<open>compute_transform_tables\<close> has \<open>len(source) + 1\<close>
  rows of \<open>len(destination) + 1\<close> cells; \<open>cost[0][0] = 0\<close>; \<open>cost[i][0] = i * delete_cost\<close>
  and \<open>cost[0][j] = j * insert_cost\<close> on the border; and every interior cell is the minimum
  of the diagonal, vertical and horizontal candidates. This holds for all integer costs,
  the non-negative ones among them.
\<close>

theorem cost_matrix_invariant:
  assumes "(costs, ops) = compute_transform_tables source destination
             copy_cost replace_cost delete_cost insert_cost"
  shows "length costs = length source + 1 \<and>
         (\<forall>i\<le>length source. length (costs ! i) = length destination + 1) \<and>
         costs ! 0 ! 0 = 0 \<and>
         (\<forall>i. 1 \<le> i \<and> i \<le> length source \<longrightarrow> costs ! i ! 0 = int i * delete_cost) \<and>
         (\<forall>j. 1 \<le> j \<and> j \<le> length destination \<longrightarrow> costs ! 0 ! j = int j * insert_cost) \<and>
         (\<forall>i j. 1 \<le> i \<and> i \<le> length source \<and> 1 \<le> j \<and> j \<le> length destination \<longrightarrow>
            costs ! i ! j =
              min (costs ! (i - 1) ! (j - 1) +
                     (if source ! (i - 1) = destination ! (j - 1) then copy_cost
                      else replace_cost))
                  (min (costs ! (i - 1) ! j + delete_cost)
                       (costs ! i ! (j - 1) + insert_cost)))"
proof (intro conjI allI impI)
  show "length costs = length source + 1" by (rule tables_dims(1)[OF assms])
next
  fix i assume "i \<le> length source"
  then show "length (costs ! i) = length destination + 1" by (rule tables_dims(3)[OF assms])
next
  show "costs ! 0 ! 0 = 0" using tables_cells(1)[OF assms, of 0 0] by simp
next
  fix i assume a: "1 \<le> i \<and> i \<le> length source"
  then obtain i' where i: "i = Suc i'" by (cases i) auto
  show "costs ! i ! 0 = int i * delete_cost"
    using tables_cells(1)[OF assms, of i 0] a unfolding i by simp
next
  fix j assume a: "1 \<le> j \<and> j \<le> length destination"
  then obtain j' where j: "j = Suc j'" by (cases j) auto
  show "costs ! 0 ! j = int j * insert_cost"
    using tables_cells(1)[OF assms, of 0 j] a unfolding j by simp
next
  fix i j
  assume a: "1 \<le> i \<and> i \<le> length source \<and> 1 \<le> j \<and> j \<le> length destination"
  then obtain i' j' where ij: "i = Suc i'" "j = Suc j'" by (cases i; cases j) auto
  have le: "i' \<le> length source" "j' \<le> length destination"
    "Suc i' \<le> length source" "Suc j' \<le> length destination"
    using a ij by simp_all
  note c = tables_cells(1)[OF assms]
  show "costs ! i ! j =
          min (costs ! (i - 1) ! (j - 1) +
                 (if source ! (i - 1) = destination ! (j - 1) then copy_cost else replace_cost))
              (min (costs ! (i - 1) ! j + delete_cost) (costs ! i ! (j - 1) + insert_cost))"
    unfolding ij
    using c[OF le(3) le(4)] c[OF le(1) le(2)] c[OF le(1) le(4)] c[OF le(3) le(2)]
    by (simp only: ref_cost_interior diff_Suc_1)
qed

text \<open>
  Claim C7. In every interior cell the recorded operation is the horizontal Insert only
  when its cost is strictly below both other candidates, else the vertical Delete only
  when its cost is strictly below the diagonal candidate, else the diagonal candidate
  (Copy when the two symbols are equal, Replace otherwise): ties favour diagonal over
  vertical over horizontal.
\<close>

theorem operation_tie_break:
  assumes "(costs, ops) = compute_transform_tables source destination
             copy_cost replace_cost delete_cost insert_cost"
    and "1 \<le> i" "i \<le> length source" "1 \<le> j" "j \<le> length destination"
  shows "ops ! i ! j =
     (let diag = costs ! (i - 1) ! (j - 1) +
                   (if source ! (i - 1) = destination ! (j - 1) then copy_cost
                    else replace_cost);
          vert = costs ! (i - 1) ! j + delete_cost;
          horiz = costs ! i ! (j - 1) + insert_cost
      in if horiz < min diag vert then [CHR ''I'', destination ! (j - 1)]
         else if vert < diag then [CHR ''D'', source ! (i - 1)]
         else if source ! (i - 1) = destination ! (j - 1) then [CHR ''C'', source ! (i - 1)]
         else [CHR ''R'', source ! (i - 1), destination ! (j - 1)])"
proof -
  from assms(2,4) obtain i' j' where ij: "i = Suc i'" "j = Suc j'" by (cases i; cases j) auto
  have le: "i' \<le> length source" "j' \<le> length destination"
    "Suc i' \<le> length source" "Suc j' \<le> length destination"
    using assms(3,5) ij by simp_all
  note c = tables_cells(1)[OF assms(1)]
  note o = tables_cells(2)[OF assms(1)]
  show ?thesis
    unfolding ij
    using o[OF le(3) le(4)] c[OF le(1) le(2)] c[OF le(1) le(4)] c[OF le(3) le(2)]
    by (simp only: ref_op_interior diff_Suc_1)
qed

lemma te_test_tables:
  "([[0, 1, 2, 3, 4], [1, 1, 2, 3, 4], [2, 2, 2, 3, 4]],
    [[''0'', ''It'', ''Ie'', ''Is'', ''It''],
     [''Dt'', ''Ct'', ''Rte'', ''Rts'', ''Ct''],
     [''De'', ''Ret'', ''Ce'', ''Res'', ''Ret'']]) =
   compute_transform_tables ''te'' ''test'' 1 1 1 1"
  by code_simp

theorem cost_matrix_invariant_witness:
  "([[0, 1, 2, 3, 4], [1, 1, 2, 3, 4], [2, 2, 2, 3, 4]],
    [[''0'', ''It'', ''Ie'', ''Is'', ''It''],
     [''Dt'', ''Ct'', ''Rte'', ''Rts'', ''Ct''],
     [''De'', ''Ret'', ''Ce'', ''Res'', ''Ret'']]) =
   compute_transform_tables ''te'' ''test'' 1 1 1 1 \<and>
   (1::nat) \<le> 2 \<and> 2 \<le> length ''te'' \<and> (1::nat) \<le> 4 \<and> 4 \<le> length ''test'' \<and>
   [[0, 1, 2, 3, 4], [1, 1, 2, 3, 4], [2, 2, 2, 3, 4 :: int]] ! 2 ! 4 =
     min ([[0, 1, 2, 3, 4], [1, 1, 2, 3, 4], [2, 2, 2, 3, 4]] ! (2 - 1) ! (4 - 1) +
            (if ''te'' ! (2 - 1) = ''test'' ! (4 - 1) then 1 else 1))
         (min ([[0, 1, 2, 3, 4], [1, 1, 2, 3, 4], [2, 2, 2, 3, 4]] ! (2 - 1) ! 4 + 1)
              ([[0, 1, 2, 3, 4], [1, 1, 2, 3, 4], [2, 2, 2, 3, 4]] ! 2 ! (4 - 1) + 1))"
proof -
  note inv = cost_matrix_invariant[OF te_test_tables]
  have r: "(1::nat) \<le> 2 \<and> 2 \<le> length ''te'' \<and> (1::nat) \<le> 4 \<and> 4 \<le> length ''test''"
    by simp
  from inv have "\<forall>i j. 1 \<le> i \<and> i \<le> length ''te'' \<and> 1 \<le> j \<and> j \<le> length ''test'' \<longrightarrow>
      [[0, 1, 2, 3, 4], [1, 1, 2, 3, 4], [2, 2, 2, 3, 4 :: int]] ! i ! j =
        min ([[0, 1, 2, 3, 4], [1, 1, 2, 3, 4], [2, 2, 2, 3, 4]] ! (i - 1) ! (j - 1) +
               (if ''te'' ! (i - 1) = ''test'' ! (j - 1) then 1 else 1))
            (min ([[0, 1, 2, 3, 4], [1, 1, 2, 3, 4], [2, 2, 2, 3, 4]] ! (i - 1) ! j + 1)
                 ([[0, 1, 2, 3, 4], [1, 1, 2, 3, 4], [2, 2, 2, 3, 4]] ! i ! (j - 1) + 1))"
    by blast
  with r te_test_tables show ?thesis by blast
qed

theorem operation_tie_break_witness:
  "([[0, 1, 2, 3, 4], [1, 1, 2, 3, 4], [2, 2, 2, 3, 4]],
    [[''0'', ''It'', ''Ie'', ''Is'', ''It''],
     [''Dt'', ''Ct'', ''Rte'', ''Rts'', ''Ct''],
     [''De'', ''Ret'', ''Ce'', ''Res'', ''Ret'']]) =
   compute_transform_tables ''te'' ''test'' 1 1 1 1 \<and>
   (1::nat) \<le> 2 \<and> 2 \<le> length ''te'' \<and> (1::nat) \<le> 1 \<and> 1 \<le> length ''test'' \<and>
   [[''0'', ''It'', ''Ie'', ''Is'', ''It''],
    [''Dt'', ''Ct'', ''Rte'', ''Rts'', ''Ct''],
    [''De'', ''Ret'', ''Ce'', ''Res'', ''Ret'']] ! 2 ! 1 = ''Ret''"
proof -
  have r: "(1::nat) \<le> 2" "2 \<le> length ''te''" "(1::nat) \<le> 1" "1 \<le> length ''test''"
    by simp_all
  from operation_tie_break[OF te_test_tables r]
  have "[[''0'', ''It'', ''Ie'', ''Is'', ''It''],
    [''Dt'', ''Ct'', ''Rte'', ''Rts'', ''Ct''],
    [''De'', ''Ret'', ''Ce'', ''Res'', ''Ret'']] ! 2 ! 1 = ''Ret''"
    by simp
  with r te_test_tables show ?thesis by blast
qed

section \<open>The traversal on the tables of \<^verbatim>\<open>compute_transform_tables\<close>\<close>

text \<open>
  The defining equation of \<^verbatim>\<open>assemble_transformation\<close> is unfolded one call at a time.
  \<open>ref_seq\<close> is the path the traversal follows from the cell \<open>(i, j)\<close> when every cell
  holds the operation of \<open>ref_cell\<close>.
\<close>

fun ref_seq :: "string \<Rightarrow> string \<Rightarrow> int \<Rightarrow> int \<Rightarrow> int \<Rightarrow> int \<Rightarrow> nat \<Rightarrow> nat \<Rightarrow> string list" where
  "ref_seq s d cc rc dc ic 0 0 = []"
| "ref_seq s d cc rc dc ic (Suc i) 0 =
     ref_seq s d cc rc dc ic i 0 @ [snd (ref_cell s d cc rc dc ic (Suc i) 0)]"
| "ref_seq s d cc rc dc ic 0 (Suc j) =
     ref_seq s d cc rc dc ic 0 j @ [snd (ref_cell s d cc rc dc ic 0 (Suc j))]"
| "ref_seq s d cc rc dc ic (Suc i) (Suc j) =
     (let cell = snd (ref_cell s d cc rc dc ic (Suc i) (Suc j)) in
      if hd cell = CHR ''C'' \<or> hd cell = CHR ''R'' then ref_seq s d cc rc dc ic i j @ [cell]
      else if hd cell = CHR ''D'' then ref_seq s d cc rc dc ic i (Suc j) @ [cell]
      else ref_seq s d cc rc dc ic (Suc i) j @ [cell])"

lemma py_index_nat: "i < length xs \<Longrightarrow> py_index xs (int i) = Inr (xs ! i)"
  by (simp add: py_index_def py_nth_def)

lemma py_index_beyond: "int (length xs) \<le> i \<Longrightarrow> py_index xs i = Inl IndexError"
  by (simp add: py_index_def py_nth_def)

lemma ref_cell_nonempty: "snd (ref_cell s d cc rc dc ic i j) \<noteq> []"
proof (cases i; cases j)
  fix i' j' assume "i = Suc i'" "j = Suc j'"
  then show ?thesis using ref_cell_interior_cases[of s i' d j' cc rc dc ic] by auto
qed simp_all

text \<open>Reading the cell (i, j) of a table built by compute_transform_tables.\<close>

lemma read_cell:
  assumes t: "(costs, ops) = compute_transform_tables s d cc rc dc ic"
    and i: "i \<le> length s" and j: "j \<le> length d"
  shows "py_index ops (int i) = Inr (ops ! i)"
    and "py_index (ops ! i) (int j) = Inr (snd (ref_cell s d cc rc dc ic i j))"
    and "py_index (snd (ref_cell s d cc rc dc ic i j)) 0 =
         Inr (hd (snd (ref_cell s d cc rc dc ic i j)))"
proof -
  show "py_index ops (int i) = Inr (ops ! i)"
    using tables_dims(2)[OF t] i by (intro py_index_nat) simp
  have "py_index (ops ! i) (int j) = Inr (ops ! i ! j)"
    using tables_dims(4)[OF t i] j by (intro py_index_nat) simp
  then show "py_index (ops ! i) (int j) = Inr (snd (ref_cell s d cc rc dc ic i j))"
    using tables_cells(2)[OF t i j] by simp
  show "py_index (snd (ref_cell s d cc rc dc ic i j)) 0 =
         Inr (hd (snd (ref_cell s d cc rc dc ic i j)))"
    using ref_cell_nonempty[of s d cc rc dc ic i j]
    by (cases "snd (ref_cell s d cc rc dc ic i j)") (simp_all add: py_index_def py_nth_def)
qed

lemma py_index_Inr:
  "py_index xs i = Inr x \<Longrightarrow> - int (length xs) \<le> i \<and> i < int (length xs) \<and> x \<in> set xs"
  by (auto simp: py_index_def py_nth_def split: if_splits)

lemma py_index_Inl: "py_index xs i = Inl e \<Longrightarrow> e = IndexError"
  by (auto simp: py_index_def py_nth_def split: if_splits)

lemma assemble_unfold:
  assumes t: "(costs, ops) = compute_transform_tables s d cc rc dc ic"
    and i: "i \<le> length s" and j: "j \<le> length d" and nz: "0 < i \<or> 0 < j"
  shows "assemble_transformation depth ops (int i) (int j) =
     (let cell = snd (ref_cell s d cc rc dc ic i j) in
      if hd cell = CHR ''C'' \<or> hd cell = CHR ''R'' then
        (case depth of
           0 \<Rightarrow> Inl RecursionError
         | Suc depth' \<Rightarrow>
            (case assemble_transformation depth' ops (int i - 1) (int j - 1) of
               Inl e \<Rightarrow> Inl e | Inr seq \<Rightarrow> Inr (seq @ [cell])))
      else if hd cell = CHR ''D'' then
        (case depth of
           0 \<Rightarrow> Inl RecursionError
         | Suc depth' \<Rightarrow>
            (case assemble_transformation depth' ops (int i - 1) (int j) of
               Inl e \<Rightarrow> Inl e | Inr seq \<Rightarrow> Inr (seq @ [cell])))
      else
        (case depth of
           0 \<Rightarrow> Inl RecursionError
         | Suc depth' \<Rightarrow>
            (case assemble_transformation depth' ops (int i) (int j - 1) of
               Inl e \<Rightarrow> Inl e | Inr seq \<Rightarrow> Inr (seq @ [cell]))))"
proof -
  have "\<not> (int i = 0 \<and> int j = 0)" using nz by auto
  then show ?thesis
    by (subst assemble_transformation.simps)
       (simp only: read_cell[OF t i j] if_False sum.case Let_def)
qed

lemma cell_induct:
  assumes z: "P 0 0"
    and col: "\<And>i. P i 0 \<Longrightarrow> P (Suc i) 0"
    and row: "\<And>j. P 0 j \<Longrightarrow> P 0 (Suc j)"
    and inner: "\<And>i j. P i j \<Longrightarrow> P i (Suc j) \<Longrightarrow> P (Suc i) j \<Longrightarrow> P (Suc i) (Suc j)"
  shows "P (i :: nat) (j :: nat)"
proof (induction i arbitrary: j)
  case 0
  show ?case by (induction j) (auto intro: z row)
next
  case (Suc i)
  note outer = Suc.IH
  show ?case
  proof (induction j)
    case 0
    show ?case by (rule col[OF outer])
  next
    case (Suc j)
    show ?case by (rule inner[OF outer outer Suc.IH])
  qed
qed

text \<open>
  On a built table the traversal from the cell (i, j) returns the path \<open>ref_seq\<close> when the
  interpreter allows as many nested calls as the path has operations, and raises
  RecursionError when it does not.
\<close>

lemma assemble_ref_seq:
  assumes t: "(costs, ops) = compute_transform_tables s d cc rc dc ic"
  shows "i \<le> length s \<Longrightarrow> j \<le> length d \<Longrightarrow>
         assemble_transformation depth ops (int i) (int j) =
           (if length (ref_seq s d cc rc dc ic i j) \<le> depth
            then Inr (ref_seq s d cc rc dc ic i j) else Inl RecursionError)"
proof (induction i j arbitrary: depth rule: cell_induct)
  case 1
  show ?case by (subst assemble_transformation.simps) simp
next
  case (2 i)
  have ih: "assemble_transformation k ops (int i) 0 =
      (if length (ref_seq s d cc rc dc ic i 0) \<le> k
       then Inr (ref_seq s d cc rc dc ic i 0) else Inl RecursionError)" for k
    using "2.IH"[of k] "2.prems" by simp
  have e: "int (Suc i) - 1 = int i" "int (0 :: nat) = 0" by simp_all
  have nz: "0 < Suc i \<or> 0 < (0 :: nat)" by simp
  show ?case
    apply (subst assemble_unfold[OF t "2.prems" nz])
    unfolding e ih ref_seq.simps Let_def
    by (cases depth) simp_all
next
  case (3 j)
  have ih: "assemble_transformation k ops 0 (int j) =
      (if length (ref_seq s d cc rc dc ic 0 j) \<le> k
       then Inr (ref_seq s d cc rc dc ic 0 j) else Inl RecursionError)" for k
    using "3.IH"[of k] "3.prems" by simp
  have e: "int (Suc j) - 1 = int j" "int (0 :: nat) = 0" by simp_all
  have nz: "0 < (0 :: nat) \<or> 0 < Suc j" by simp
  show ?case
    apply (subst assemble_unfold[OF t "3.prems" nz])
    unfolding e ih ref_seq.simps Let_def
    by (cases depth) simp_all
next
  case (4 i j)
  have le: "i \<le> length s" "j \<le> length d" using "4.prems" by simp_all
  have ih: "assemble_transformation k ops (int i) (int j) =
      (if length (ref_seq s d cc rc dc ic i j) \<le> k
       then Inr (ref_seq s d cc rc dc ic i j) else Inl RecursionError)"
    "assemble_transformation k ops (int i) (int (Suc j)) =
      (if length (ref_seq s d cc rc dc ic i (Suc j)) \<le> k
       then Inr (ref_seq s d cc rc dc ic i (Suc j)) else Inl RecursionError)"
    "assemble_transformation k ops (int (Suc i)) (int j) =
      (if length (ref_seq s d cc rc dc ic (Suc i) j) \<le> k
       then Inr (ref_seq s d cc rc dc ic (Suc i) j) else Inl RecursionError)" for k
    using "4.IH"(1)[of k] "4.IH"(2)[of k] "4.IH"(3)[of k] le "4.prems" by simp_all
  have e: "int (Suc i) - 1 = int i" "int (Suc j) - 1 = int j" by simp_all
  have nz: "0 < Suc i \<or> 0 < Suc j" by simp
  show ?case
    unfolding assemble_unfold[OF t "4.prems" nz] e ih ref_seq.simps Let_def
    by (cases depth) simp_all
qed

lemma ref_seq_column: "length (ref_seq s d cc rc dc ic i 0) = i"
  by (induction i) simp_all

lemma ref_seq_row: "length (ref_seq s d cc rc dc ic 0 j) = j"
  by (induction j) simp_all

section \<open>Applying an operation sequence\<close>

text \<open>
  The reference meaning of an operation sequence, as the round-trip property words it:
  the operations are applied one after the other to a mutable copy of the source, at a
  cursor that starts at position \<open>0\<close>. Copy keeps the symbol under the cursor and moves
  on, Replace overwrites it and moves on, Delete removes it (the cursor then stands on the
  next symbol) and Insert adds a symbol at the cursor and moves past it. An operation
  that names a source symbol applies only when that symbol is under the cursor.
  \<open>decode\<close> reads the operation strings of the source: the tag letter and its symbols.
\<close>

datatype edit = Copy char | Replace char char | Delete char | Insert char

fun decode :: "string \<Rightarrow> edit option" where
  "decode [t, a] =
     (if t = CHR ''C'' then Some (Copy a)
      else if t = CHR ''D'' then Some (Delete a)
      else if t = CHR ''I'' then Some (Insert a)
      else None)"
| "decode [t, a, b] = (if t = CHR ''R'' then Some (Replace a b) else None)"
| "decode _ = None"

fun apply_edit :: "edit \<Rightarrow> string \<times> nat \<Rightarrow> (string \<times> nat) option" where
  "apply_edit (Copy a) (str, k) =
     (if k < length str \<and> str ! k = a then Some (str, k + 1) else None)"
| "apply_edit (Replace a b) (str, k) =
     (if k < length str \<and> str ! k = a then Some (str[k := b], k + 1) else None)"
| "apply_edit (Delete a) (str, k) =
     (if k < length str \<and> str ! k = a then Some (take k str @ drop (k + 1) str, k) else None)"
| "apply_edit (Insert a) (str, k) =
     (if k \<le> length str then Some (take k str @ [a] @ drop k str, k + 1) else None)"

fun apply_edits :: "edit list \<Rightarrow> string \<times> nat \<Rightarrow> (string \<times> nat) option" where
  "apply_edits [] st = Some st"
| "apply_edits (e # es) st =
     (case apply_edit e st of None \<Rightarrow> None | Some st' \<Rightarrow> apply_edits es st')"

fun edit_cost :: "int \<Rightarrow> int \<Rightarrow> int \<Rightarrow> int \<Rightarrow> edit \<Rightarrow> int" where
  "edit_cost copy_cost replace_cost delete_cost insert_cost (Copy a) = copy_cost"
| "edit_cost copy_cost replace_cost delete_cost insert_cost (Replace a b) = replace_cost"
| "edit_cost copy_cost replace_cost delete_cost insert_cost (Delete a) = delete_cost"
| "edit_cost copy_cost replace_cost delete_cost insert_cost (Insert a) = insert_cost"

lemma apply_edits_snoc:
  "apply_edits (es @ [e]) st =
     (case apply_edits es st of None \<Rightarrow> None | Some st' \<Rightarrow> apply_edit e st')"
  by (induction es arbitrary: st) (auto split: option.splits)

lemma mid_nth:
  "i < length s \<Longrightarrow> j \<le> length d \<Longrightarrow> (take j d @ drop i s) ! j = s ! i"
  by (simp add: nth_append)

lemma mid_length:
  "i < length s \<Longrightarrow> j \<le> length d \<Longrightarrow> j < length (take j d @ drop i s)"
  by simp

lemma apply_copy:
  assumes "i < length s" "j < length d" "s ! i = d ! j"
  shows "apply_edit (Copy (s ! i)) (take j d @ drop i s, j) =
         Some (take (Suc j) d @ drop (Suc i) s, Suc j)"
proof -
  have "drop i s = s ! i # drop (Suc i) s" using assms(1) by (simp add: Cons_nth_drop_Suc)
  moreover have "take (Suc j) d = take j d @ [s ! i]"
    using assms(2,3) by (simp add: take_Suc_conv_app_nth)
  ultimately have "take j d @ drop i s = take (Suc j) d @ drop (Suc i) s" by simp
  moreover have "j < length (take j d @ drop i s)" "(take j d @ drop i s) ! j = s ! i"
    using assms by (simp_all add: nth_append)
  ultimately show ?thesis by simp
qed

lemma apply_replace:
  assumes "i < length s" "j < length d"
  shows "apply_edit (Replace (s ! i) (d ! j)) (take j d @ drop i s, j) =
         Some (take (Suc j) d @ drop (Suc i) s, Suc j)"
proof -
  have "drop i s = s ! i # drop (Suc i) s" using assms by (simp add: Cons_nth_drop_Suc)
  then have "(take j d @ drop i s)[j := d ! j] = take (Suc j) d @ drop (Suc i) s"
    using assms by (simp add: take_Suc_conv_app_nth list_update_append)
  moreover have "j < length (take j d @ drop i s)" "(take j d @ drop i s) ! j = s ! i"
    using assms by (simp_all add: nth_append)
  ultimately show ?thesis by simp
qed

lemma apply_delete:
  assumes "i < length s" "j \<le> length d"
  shows "apply_edit (Delete (s ! i)) (take j d @ drop i s, j) =
         Some (take j d @ drop (Suc i) s, j)"
proof -
  have "j < length (take j d @ drop i s)" "(take j d @ drop i s) ! j = s ! i"
    using assms by (simp_all add: nth_append)
  moreover have "take j (take j d @ drop i s) = take j d" using assms by simp
  moreover have "drop (j + 1) (take j d @ drop i s) = drop (Suc i) s" using assms by simp
  ultimately show ?thesis by simp
qed

lemma apply_insert:
  assumes "j < length d"
  shows "apply_edit (Insert (d ! j)) (take j d @ drop i s, j) =
         Some (take (Suc j) d @ drop i s, Suc j)"
proof -
  have "take j (take j d @ drop i s) = take j d" "drop j (take j d @ drop i s) = drop i s"
    using assms by simp_all
  moreover have "j \<le> length (take j d @ drop i s)" using assms by simp
  ultimately show ?thesis using assms by (simp add: take_Suc_conv_app_nth)
qed

text \<open>What the path to the cell (i, j) does, as one predicate.\<close>

definition path_ok ::
  "string \<Rightarrow> string \<Rightarrow> int \<Rightarrow> int \<Rightarrow> int \<Rightarrow> int \<Rightarrow> nat \<Rightarrow> nat \<Rightarrow> string list \<Rightarrow> bool" where
  "path_ok s d cc rc dc ic i j seq \<longleftrightarrow>
     length seq \<le> i + j \<and>
     (\<exists>edits. map decode seq = map Some edits \<and>
        apply_edits edits (s, 0) = Some (take j d @ drop i s, j) \<and>
        sum_list (map (edit_cost cc rc dc ic) edits) = fst (ref_cell s d cc rc dc ic i j))"

lemma path_ok_snoc:
  assumes p: "path_ok s d cc rc dc ic i j seq"
    and dec: "decode cell = Some e"
    and ap: "apply_edit e (take j d @ drop i s, j) = Some (take j' d @ drop i' s, j')"
    and cost: "fst (ref_cell s d cc rc dc ic i' j') =
               fst (ref_cell s d cc rc dc ic i j) + edit_cost cc rc dc ic e"
    and len: "i + j < i' + j'"
  shows "path_ok s d cc rc dc ic i' j' (seq @ [cell])"
proof -
  from p obtain edits where l: "length seq \<le> i + j"
    and m: "map decode seq = map Some edits"
    and a: "apply_edits edits (s, 0) = Some (take j d @ drop i s, j)"
    and c: "sum_list (map (edit_cost cc rc dc ic) edits) = fst (ref_cell s d cc rc dc ic i j)"
    unfolding path_ok_def by blast
  have "map decode (seq @ [cell]) = map Some (edits @ [e])" using m dec by simp
  moreover have "apply_edits (edits @ [e]) (s, 0) = Some (take j' d @ drop i' s, j')"
    using a ap by (simp add: apply_edits_snoc)
  moreover have "sum_list (map (edit_cost cc rc dc ic) (edits @ [e])) =
                 fst (ref_cell s d cc rc dc ic i' j')"
    using c cost by simp
  moreover have "length (seq @ [cell]) \<le> i' + j'" using l len by simp
  ultimately show ?thesis unfolding path_ok_def by blast
qed

lemma ref_seq_path_ok:
  "i \<le> length s \<Longrightarrow> j \<le> length d \<Longrightarrow>
   path_ok s d cc rc dc ic i j (ref_seq s d cc rc dc ic i j)"
proof (induction i j rule: cell_induct)
  case 1
  show ?case unfolding path_ok_def by simp
next
  case (2 i)
  then have p: "path_ok s d cc rc dc ic i 0 (ref_seq s d cc rc dc ic i 0)" by simp
  have il: "i < length s" using "2.prems" by simp
  have "path_ok s d cc rc dc ic (Suc i) 0 (ref_seq s d cc rc dc ic i 0 @ [[CHR ''D'', s ! i]])"
  proof (rule path_ok_snoc[OF p])
    show "decode [CHR ''D'', s ! i] = Some (Delete (s ! i))" by simp
    show "apply_edit (Delete (s ! i)) (take 0 d @ drop i s, 0) =
          Some (take 0 d @ drop (Suc i) s, 0)"
      by (rule apply_delete[OF il]) simp
    show "fst (ref_cell s d cc rc dc ic (Suc i) 0) =
          fst (ref_cell s d cc rc dc ic i 0) + edit_cost cc rc dc ic (Delete (s ! i))"
      by (cases i) (simp_all add: algebra_simps)
    show "i + 0 < Suc i + 0" by simp
  qed
  then show ?case by simp
next
  case (3 j)
  then have p: "path_ok s d cc rc dc ic 0 j (ref_seq s d cc rc dc ic 0 j)" by simp
  have jl: "j < length d" using "3.prems" by simp
  have "path_ok s d cc rc dc ic 0 (Suc j) (ref_seq s d cc rc dc ic 0 j @ [[CHR ''I'', d ! j]])"
  proof (rule path_ok_snoc[OF p])
    show "decode [CHR ''I'', d ! j] = Some (Insert (d ! j))" by simp
    show "apply_edit (Insert (d ! j)) (take j d @ drop 0 s, j) =
          Some (take (Suc j) d @ drop 0 s, Suc j)"
      by (rule apply_insert[OF jl])
    show "fst (ref_cell s d cc rc dc ic 0 (Suc j)) =
          fst (ref_cell s d cc rc dc ic 0 j) + edit_cost cc rc dc ic (Insert (d ! j))"
      by (cases j) (simp_all add: algebra_simps)
    show "0 + j < 0 + Suc j" by simp
  qed
  then show ?case by simp
next
  case (4 i j)
  have il: "i < length s" and jl: "j < length d" using "4.prems" by simp_all
  have p1: "path_ok s d cc rc dc ic i j (ref_seq s d cc rc dc ic i j)"
    and p2: "path_ok s d cc rc dc ic i (Suc j) (ref_seq s d cc rc dc ic i (Suc j))"
    and p3: "path_ok s d cc rc dc ic (Suc i) j (ref_seq s d cc rc dc ic (Suc i) j)"
    using "4.IH" "4.prems" by simp_all
  from ref_cell_interior_cases[of s i d j cc rc dc ic]
  consider
    (copy) "s ! i = d ! j" "ref_cell s d cc rc dc ic (Suc i) (Suc j) =
      (fst (ref_cell s d cc rc dc ic i j) + cc, [CHR ''C'', s ! i])"
  | (replace) "ref_cell s d cc rc dc ic (Suc i) (Suc j) =
      (fst (ref_cell s d cc rc dc ic i j) + rc, [CHR ''R'', s ! i, d ! j])"
  | (delete) "ref_cell s d cc rc dc ic (Suc i) (Suc j) =
      (fst (ref_cell s d cc rc dc ic i (Suc j)) + dc, [CHR ''D'', s ! i])"
  | (insert) "ref_cell s d cc rc dc ic (Suc i) (Suc j) =
      (fst (ref_cell s d cc rc dc ic (Suc i) j) + ic, [CHR ''I'', d ! j])"
    by blast
  then show ?case
  proof cases
    case copy
    have "path_ok s d cc rc dc ic (Suc i) (Suc j)
            (ref_seq s d cc rc dc ic i j @ [[CHR ''C'', s ! i]])"
    proof (rule path_ok_snoc[OF p1])
      show "decode [CHR ''C'', s ! i] = Some (Copy (s ! i))" by simp
      show "apply_edit (Copy (s ! i)) (take j d @ drop i s, j) =
            Some (take (Suc j) d @ drop (Suc i) s, Suc j)"
        by (rule apply_copy[OF il jl copy(1)])
      show "fst (ref_cell s d cc rc dc ic (Suc i) (Suc j)) =
            fst (ref_cell s d cc rc dc ic i j) + edit_cost cc rc dc ic (Copy (s ! i))"
        unfolding copy(2) by simp
      show "i + j < Suc i + Suc j" by simp
    qed
    then show ?thesis unfolding ref_seq.simps copy(2) Let_def by simp
  next
    case replace
    have "path_ok s d cc rc dc ic (Suc i) (Suc j)
            (ref_seq s d cc rc dc ic i j @ [[CHR ''R'', s ! i, d ! j]])"
    proof (rule path_ok_snoc[OF p1])
      show "decode [CHR ''R'', s ! i, d ! j] = Some (Replace (s ! i) (d ! j))" by simp
      show "apply_edit (Replace (s ! i) (d ! j)) (take j d @ drop i s, j) =
            Some (take (Suc j) d @ drop (Suc i) s, Suc j)"
        by (rule apply_replace[OF il jl])
      show "fst (ref_cell s d cc rc dc ic (Suc i) (Suc j)) =
            fst (ref_cell s d cc rc dc ic i j) + edit_cost cc rc dc ic (Replace (s ! i) (d ! j))"
        unfolding replace by simp
      show "i + j < Suc i + Suc j" by simp
    qed
    then show ?thesis unfolding ref_seq.simps replace Let_def by simp
  next
    case delete
    have "path_ok s d cc rc dc ic (Suc i) (Suc j)
            (ref_seq s d cc rc dc ic i (Suc j) @ [[CHR ''D'', s ! i]])"
    proof (rule path_ok_snoc[OF p2])
      show "decode [CHR ''D'', s ! i] = Some (Delete (s ! i))" by simp
      show "apply_edit (Delete (s ! i)) (take (Suc j) d @ drop i s, Suc j) =
            Some (take (Suc j) d @ drop (Suc i) s, Suc j)"
        by (rule apply_delete[OF il "4.prems"(2)])
      show "fst (ref_cell s d cc rc dc ic (Suc i) (Suc j)) =
            fst (ref_cell s d cc rc dc ic i (Suc j)) + edit_cost cc rc dc ic (Delete (s ! i))"
        unfolding delete by simp
      show "i + Suc j < Suc i + Suc j" by simp
    qed
    then show ?thesis unfolding ref_seq.simps delete Let_def by simp
  next
    case insert
    have "path_ok s d cc rc dc ic (Suc i) (Suc j)
            (ref_seq s d cc rc dc ic (Suc i) j @ [[CHR ''I'', d ! j]])"
    proof (rule path_ok_snoc[OF p3])
      show "decode [CHR ''I'', d ! j] = Some (Insert (d ! j))" by simp
      show "apply_edit (Insert (d ! j)) (take j d @ drop (Suc i) s, j) =
            Some (take (Suc j) d @ drop (Suc i) s, Suc j)"
        by (rule apply_insert[OF jl])
      show "fst (ref_cell s d cc rc dc ic (Suc i) (Suc j)) =
            fst (ref_cell s d cc rc dc ic (Suc i) j) + edit_cost cc rc dc ic (Insert (d ! j))"
        unfolding insert by simp
      show "Suc i + j < Suc i + Suc j" by simp
    qed
    then show ?thesis unfolding ref_seq.simps insert Let_def by simp
  qed
qed


section \<open>Coordinates outside the table\<close>

text \<open>
  With a negative coordinate the base case is never reached, whatever the table: the
  traversal ends in an exception. Every read of a cell that fails raises IndexError.
\<close>

lemma assemble_negative:
  "i < 0 \<or> j < 0 \<Longrightarrow> \<exists>e. assemble_transformation depth ops i j = Inl e"
proof (induction depth arbitrary: i j)
  case 0
  have nz: "\<not> (i = 0 \<and> j = 0)" using "0.prems" by auto
  show ?case
    by (subst assemble_transformation.simps) (simp add: nz split: sum.splits)
next
  case (Suc depth)
  have nz: "\<not> (i = 0 \<and> j = 0)" using Suc.prems by auto
  have p: "i - 1 < 0 \<or> j - 1 < 0" "i - 1 < 0 \<or> j < 0" "i < 0 \<or> j - 1 < 0"
    using Suc.prems by auto
  from Suc.IH[OF p(1)] Suc.IH[OF p(2)] Suc.IH[OF p(3)]
  obtain e1 e2 e3 where
    "assemble_transformation depth ops (i - 1) (j - 1) = Inl e1"
    "assemble_transformation depth ops (i - 1) j = Inl e2"
    "assemble_transformation depth ops i (j - 1) = Inl e3"
    by blast
  then show ?case
    by (subst assemble_transformation.simps) (simp add: nz split: sum.splits)
qed

lemma assemble_negative_index_error:
  assumes L: "length ops = L" and W: "\<forall>row\<in>set ops. length row = W"
  shows "i < 0 \<or> j < 0 \<Longrightarrow> i + j + int L + int W < int depth \<Longrightarrow>
         assemble_transformation depth ops i j = Inl IndexError"
proof (induction depth arbitrary: i j)
  case 0
  have nz: "\<not> (i = 0 \<and> j = 0)" using "0.prems" by auto
  have "False" if r: "py_index ops i = Inr row" and c: "py_index row j = Inr cell" for row cell
  proof -
    from py_index_Inr[OF r] have "- int L \<le> i" "row \<in> set ops" using L by simp_all
    moreover from this W have "length row = W" by blast
    with py_index_Inr[OF c] have "- int W \<le> j" by simp
    ultimately show False using "0.prems"(2) by simp
  qed
  then show ?case
    by (subst assemble_transformation.simps)
       (auto simp: nz split: sum.splits dest: py_index_Inl)
next
  case (Suc depth)
  have nz: "\<not> (i = 0 \<and> j = 0)" using Suc.prems by auto
  have p: "i - 1 < 0 \<or> j - 1 < 0" "i - 1 < 0 \<or> j < 0" "i < 0 \<or> j - 1 < 0"
    using Suc.prems by auto
  have q: "(i - 1) + (j - 1) + int L + int W < int depth"
    "(i - 1) + j + int L + int W < int depth" "i + (j - 1) + int L + int W < int depth"
    using Suc.prems(2) by simp_all
  note ih = Suc.IH[OF p(1) q(1)] Suc.IH[OF p(2) q(2)] Suc.IH[OF p(3) q(3)]
  show ?case
    by (subst assemble_transformation.simps)
       (auto simp: nz ih split: sum.splits dest: py_index_Inl)
qed

lemma tables_rows:
  assumes t: "(costs, ops) = compute_transform_tables s d cc rc dc ic"
  shows "\<forall>row\<in>set ops. length row = length d + 1"
proof
  fix row assume "row \<in> set ops"
  then obtain r where r: "r < length ops" "row = ops ! r" by (auto simp: in_set_conv_nth)
  then have "r \<le> length s" using tables_dims(2)[OF t] by simp
  then show "length row = length d + 1" using tables_dims(4)[OF t] r(2) by simp
qed

lemma assemble_beyond:
  assumes t: "(costs, ops) = compute_transform_tables s d cc rc dc ic"
    and out: "int (length s) < i \<or> int (length d) < j"
  shows "assemble_transformation depth ops i j = Inl IndexError"
proof -
  have nz: "\<not> (i = 0 \<and> j = 0)" using out by auto
  show ?thesis
  proof (cases "py_index ops i")
    case (Inl e)
    then show ?thesis using nz py_index_Inl[OF Inl]
      by (subst assemble_transformation.simps) simp
  next
    case r: (Inr row)
    from py_index_Inr[OF r] have "i < int (length ops)" "row \<in> set ops" by simp_all
    then have "\<not> int (length s) < i" "length row = length d + 1"
      using tables_dims(2)[OF t] tables_rows[OF t] by auto
    with out have "py_index row j = Inl IndexError"
      by (intro py_index_beyond) simp
    then show ?thesis using nz r
      by (subst assemble_transformation.simps) simp
  qed
qed

section \<open>The nested calls on a built table\<close>

lemma ref_tag_border:
  "hd (snd (ref_cell s d cc rc dc ic (Suc i) 0)) = CHR ''D''"
  "hd (snd (ref_cell s d cc rc dc ic 0 (Suc j))) = CHR ''I''"
  by simp_all

text \<open>The recursive calls made at a cell of a table built by compute_transform_tables.\<close>

lemma rel_step:
  assumes t: "(costs, ops) = compute_transform_tables s d cc rc dc ic"
    and i: "i \<le> length s" and j: "j \<le> length d"
    and r: "assemble_transformation_rel (depth', ops', i', j') (depth, ops, int i, int j)"
  shows "ops' = ops \<and> depth = Suc depth' \<and>
         (\<exists>a b. i' = int a \<and> j' = int b \<and> a \<le> i \<and> b \<le> j \<and> a + b < i + j)"
proof -
  define tag where "tag = hd (snd (ref_cell s d cc rc dc ic i j))"
  have col: "tag = CHR ''D''" if "j = 0" "0 < i"
  proof -
    from that obtain i0 where "i = Suc i0" by (cases i) auto
    then show ?thesis unfolding tag_def using that(1) by simp
  qed
  have row: "tag = CHR ''I''" if "i = 0" "0 < j"
  proof -
    from that obtain j0 where "j = Suc j0" by (cases j) auto
    then show ?thesis unfolding tag_def using that(1) by simp
  qed
  note rd = read_cell[OF t i j]
  from r show ?thesis
  proof (rule assemble_transformation_rel.cases, goal_cases)
    case (1 depth0 ops0 i0 j0 rw cl tg d0)
    then have eq: "ops0 = ops" "i0 = int i" "j0 = int j" "ops' = ops"
      "i' = int i - 1" "j' = int j - 1" "depth = Suc depth'" by simp_all
    from 1 rd have "tg = tag" unfolding tag_def eq by simp
    with 1 have cr: "tag = CHR ''C'' \<or> tag = CHR ''R''" by simp
    from 1 have nz: "0 < i \<or> 0 < j" unfolding eq by auto
    have "0 < i" using cr nz row by (cases "i = 0") auto
    moreover have "0 < j" using cr nz col by (cases "j = 0") auto
    ultimately have "i' = int (i - 1) \<and> j' = int (j - 1) \<and> i - 1 \<le> i \<and> j - 1 \<le> j \<and>
        (i - 1) + (j - 1) < i + j"
      unfolding eq by auto
    then show ?thesis using eq(4,7) by blast
  next
    case (2 depth0 ops0 i0 j0 rw cl tg d0)
    then have eq: "ops0 = ops" "i0 = int i" "j0 = int j" "ops' = ops"
      "i' = int i - 1" "j' = int j" "depth = Suc depth'" by simp_all
    from 2 rd have "tg = tag" unfolding tag_def eq by simp
    with 2 have dl: "tag = CHR ''D''" by simp
    from 2 have nz: "0 < i \<or> 0 < j" unfolding eq by auto
    have "0 < i" using dl nz row by (cases "i = 0") auto
    then have "i' = int (i - 1) \<and> j' = int j \<and> i - 1 \<le> i \<and> j \<le> j \<and> (i - 1) + j < i + j"
      unfolding eq by auto
    then show ?thesis using eq(4,7) by blast
  next
    case (3 depth0 ops0 i0 j0 rw cl tg d0)
    then have eq: "ops0 = ops" "i0 = int i" "j0 = int j" "ops' = ops"
      "i' = int i" "j' = int j - 1" "depth = Suc depth'" by simp_all
    from 3 rd have "tg = tag" unfolding tag_def eq by simp
    with 3 have nd: "tag \<noteq> CHR ''D''" by simp
    from 3 have nz: "0 < i \<or> 0 < j" unfolding eq by auto
    have "0 < j" using nd nz col by (cases "j = 0") auto
    then have "i' = int i \<and> j' = int (j - 1) \<and> i \<le> i \<and> j - 1 \<le> j \<and> i + (j - 1) < i + j"
      unfolding eq by auto
    then show ?thesis using eq(4,7) by blast
  qed
qed

lemma rel_chain:
  assumes t: "(costs, ops) = compute_transform_tables s d cc rc dc ic"
  shows "i \<le> length s \<Longrightarrow> j \<le> length d \<Longrightarrow>
         (assemble_transformation_rel ^^ k) x (depth, ops, int i, int j) \<Longrightarrow> k \<le> i + j"
proof (induction k arbitrary: i j depth)
  case 0
  show ?case by simp
next
  case (Suc k)
  from Suc.prems(3) obtain y where
    xy: "(assemble_transformation_rel ^^ k) x y"
    and yz: "assemble_transformation_rel y (depth, ops, int i, int j)"
    by auto
  obtain depth' ops' i' j' where y: "y = (depth', ops', i', j')" by (cases y)
  from rel_step[OF t Suc.prems(1,2) yz[unfolded y]]
  obtain a b where ab: "ops' = ops" "i' = int a" "j' = int b" "a \<le> i" "b \<le> j" "a + b < i + j"
    by blast
  have "a \<le> length s" "b \<le> length d" using ab Suc.prems by simp_all
  from Suc.IH[OF this xy[unfolded y ab(1,2,3)]] ab(6)
  show ?case by simp
qed


section \<open>The traversal: round trip, errors and termination\<close>

text \<open>
  The tables of the doctest \<^verbatim>\<open>compute_transform_tables("te", "test", 1, 1, 1, 1)\<close>.
\<close>

definition te_test_ops :: "string list list" where
  "te_test_ops =
     [[''0'', ''It'', ''Ie'', ''Is'', ''It''],
      [''Dt'', ''Ct'', ''Rte'', ''Rts'', ''Ct''],
      [''De'', ''Ret'', ''Ce'', ''Res'', ''Ret'']]"

definition te_test_costs :: "int list list" where
  "te_test_costs = [[0, 1, 2, 3, 4], [1, 1, 2, 3, 4], [2, 2, 2, 3, 4]]"

lemma te_test_example:
  "(te_test_costs, te_test_ops) = compute_transform_tables ''te'' ''test'' 1 1 1 1"
  unfolding te_test_costs_def te_test_ops_def by (rule te_test_tables)

lemma te_test_assemble:
  "assemble_transformation 6 te_test_ops 2 4 = Inr [''It'', ''Ie'', ''Rts'', ''Ret'']"
  by code_simp

text \<open>
  Claim C2 says that the traversal from \<open>(len(source), len(destination))\<close> returns a sequence
  for every source and destination. The function calls itself once per operation, so a
  long path exceeds the interpreter's recursion limit: for the empty source and a
  destination of 1001 symbols the path has 1001 insertions, and even with 1000 nested
  calls available (the default limit is 1000 frames for the whole stack) the call raises
  \<^verbatim>\<open>RecursionError\<close>.
\<close>

theorem assemble_round_trip_recursion_limit:
  "assemble_transformation 1000
     (snd (compute_transform_tables [] (replicate 1001 CHR ''b'') 1 1 1 1))
     (int (length ([] :: string))) (int (length (replicate 1001 CHR ''b''))) =
   Inl RecursionError"
proof -
  have t: "(fst (compute_transform_tables [] (replicate 1001 CHR ''b'') 1 1 1 1),
            snd (compute_transform_tables [] (replicate 1001 CHR ''b'') 1 1 1 1)) =
           compute_transform_tables [] (replicate 1001 CHR ''b'') 1 1 1 1"
    by simp
  have "assemble_transformation 1000
     (snd (compute_transform_tables [] (replicate 1001 CHR ''b'') 1 1 1 1))
     (int 0) (int 1001) = Inl RecursionError"
    by (subst assemble_ref_seq[OF t]) (simp_all add: ref_seq_row)
  then show ?thesis by simp
qed

text \<open>
  Claim C2, as the code behaves. For every source, destination and costs there is one
  operation sequence such that \<^verbatim>\<open>assemble_transformation(ops, len(source), len(destination))\<close>
  on the tables of \<^verbatim>\<open>compute_transform_tables\<close> returns it whenever the interpreter still
  allows \<open>len(source) + len(destination)\<close> nested calls, and with any other depth returns
  it or raises \<^verbatim>\<open>RecursionError\<close>; the sequence consists of well-formed operations, turns
  the source into exactly the destination when applied operation by operation, and the
  sum of its operations' costs is \<open>costs[len(source)][len(destination)]\<close>. This holds for
  all integer costs, the non-negative ones among them.
\<close>

theorem assemble_round_trip:
  assumes "(costs, ops) = compute_transform_tables source destination
             copy_cost replace_cost delete_cost insert_cost"
  shows "\<exists>seq edits.
           (\<forall>depth. length source + length destination \<le> depth \<longrightarrow>
              assemble_transformation depth ops
                (int (length source)) (int (length destination)) = Inr seq) \<and>
           (\<forall>depth.
              assemble_transformation depth ops
                (int (length source)) (int (length destination)) = Inr seq \<or>
              assemble_transformation depth ops
                (int (length source)) (int (length destination)) = Inl RecursionError) \<and>
           map decode seq = map Some edits \<and>
           apply_edits edits (source, 0) = Some (destination, length destination) \<and>
           sum_list (map (edit_cost copy_cost replace_cost delete_cost insert_cost) edits) =
             costs ! length source ! length destination"
proof -
  let ?seq = "ref_seq source destination copy_cost replace_cost delete_cost insert_cost
                (length source) (length destination)"
  note a = assemble_ref_seq[OF assms le_refl le_refl]
  have p: "path_ok source destination copy_cost replace_cost delete_cost insert_cost
          (length source) (length destination) ?seq"
    by (rule ref_seq_path_ok[OF le_refl le_refl])
  then have len: "length ?seq \<le> length source + length destination"
    unfolding path_ok_def by simp
  from p obtain edits where e: "map decode ?seq = map Some edits"
    "apply_edits edits (source, 0) =
       Some (take (length destination) destination @ drop (length source) source,
             length destination)"
    "sum_list (map (edit_cost copy_cost replace_cost delete_cost insert_cost) edits) =
       fst (ref_cell source destination copy_cost replace_cost delete_cost insert_cost
              (length source) (length destination))"
    unfolding path_ok_def by blast
  have c: "costs ! length source ! length destination =
       fst (ref_cell source destination copy_cost replace_cost delete_cost insert_cost
              (length source) (length destination))"
    by (rule tables_cells(1)[OF assms le_refl le_refl])
  have r1: "\<forall>depth. length source + length destination \<le> depth \<longrightarrow>
              assemble_transformation depth ops
                (int (length source)) (int (length destination)) = Inr ?seq"
    using a len by simp
  have r2: "\<forall>depth.
              assemble_transformation depth ops
                (int (length source)) (int (length destination)) = Inr ?seq \<or>
              assemble_transformation depth ops
                (int (length source)) (int (length destination)) = Inl RecursionError"
    using a by simp
  from e(2) have r3: "apply_edits edits (source, 0) = Some (destination, length destination)"
    by simp
  have r4: "sum_list (map (edit_cost copy_cost replace_cost delete_cost insert_cost) edits) =
             costs ! length source ! length destination"
    using e(3) c by simp
  from r1 r2 e(1) r3 r4 show ?thesis by blast
qed

theorem assemble_round_trip_witness:
  "(te_test_costs, te_test_ops) = compute_transform_tables ''te'' ''test'' 1 1 1 1 \<and>
   length ''te'' + length ''test'' \<le> 6 \<and>
   assemble_transformation 6 te_test_ops (int (length ''te'')) (int (length ''test'')) =
     Inr [''It'', ''Ie'', ''Rts'', ''Ret''] \<and>
   map decode [''It'', ''Ie'', ''Rts'', ''Ret''] =
     map Some [Insert CHR ''t'', Insert CHR ''e'', Replace CHR ''t'' CHR ''s'',
               Replace CHR ''e'' CHR ''t''] \<and>
   apply_edits [Insert CHR ''t'', Insert CHR ''e'', Replace CHR ''t'' CHR ''s'',
                Replace CHR ''e'' CHR ''t''] (''te'', 0) = Some (''test'', length ''test'') \<and>
   sum_list (map (edit_cost 1 1 1 1)
      [Insert CHR ''t'', Insert CHR ''e'', Replace CHR ''t'' CHR ''s'',
       Replace CHR ''e'' CHR ''t'']) = te_test_costs ! length ''te'' ! length ''test''"
proof -
  from assemble_round_trip[OF te_test_example] obtain seq edits where
    r: "\<forall>depth. length ''te'' + length ''test'' \<le> depth \<longrightarrow>
          assemble_transformation depth te_test_ops
            (int (length ''te'')) (int (length ''test'')) = Inr seq"
       "map decode seq = map Some edits"
       "apply_edits edits (''te'', 0) = Some (''test'', length ''test'')"
       "sum_list (map (edit_cost 1 1 1 1) edits) = te_test_costs ! length ''te'' ! length ''test''"
    by blast
  have l: "length ''te'' + length ''test'' \<le> 6" by simp
  with r(1) have a: "assemble_transformation 6 te_test_ops
            (int (length ''te'')) (int (length ''test'')) = Inr seq" by blast
  have s: "seq = [''It'', ''Ie'', ''Rts'', ''Ret'']"
    using a te_test_assemble by simp
  have "map Some edits = map Some [Insert CHR ''t'', Insert CHR ''e'',
          Replace CHR ''t'' CHR ''s'', Replace CHR ''e'' CHR ''t'']"
    using r(2) unfolding s by simp
  then have e: "edits = [Insert CHR ''t'', Insert CHR ''e'',
          Replace CHR ''t'' CHR ''s'', Replace CHR ''e'' CHR ''t'']"
    using inj_map_eq_map[OF inj_Some, of edits "[Insert CHR ''t'', Insert CHR ''e'',
          Replace CHR ''t'' CHR ''s'', Replace CHR ''e'' CHR ''t'']"] by blast
  show ?thesis
    using te_test_example l a[unfolded s] r(2,3,4)[unfolded s e] by blast
qed

text \<open>
  Claim C8 says that for in-range coordinates the traversal returns a sequence without
  error. On the table built for a source of 1001 symbols and the empty destination, the
  in-range cell \<open>(1001, 0)\<close> needs 1001 nested calls, and with 1000 nested calls available
  the call raises \<^verbatim>\<open>RecursionError\<close>.
\<close>

theorem assemble_in_range_recursion_limit:
  "(0 :: int) \<le> 1001 \<and> 1001 \<le> int (length (replicate 1001 CHR ''a'')) \<and>
   (0 :: int) \<le> 0 \<and> 0 \<le> int (length ([] :: string)) \<and>
   assemble_transformation 1000
     (snd (compute_transform_tables (replicate 1001 CHR ''a'') [] 1 1 1 1)) 1001 0 =
   Inl RecursionError"
proof -
  have t: "(fst (compute_transform_tables (replicate 1001 CHR ''a'') [] 1 1 1 1),
            snd (compute_transform_tables (replicate 1001 CHR ''a'') [] 1 1 1 1)) =
           compute_transform_tables (replicate 1001 CHR ''a'') [] 1 1 1 1"
    by simp
  have "assemble_transformation 1000
     (snd (compute_transform_tables (replicate 1001 CHR ''a'') [] 1 1 1 1))
     (int 1001) (int 0) = Inl RecursionError"
    by (subst assemble_ref_seq[OF t]) (simp_all add: ref_seq_column)
  then show ?thesis by simp
qed

text \<open>
  Claim C8, as the code behaves. On an operation matrix, that is, the operation table
  built by \<^verbatim>\<open>compute_transform_tables\<close>, \<^verbatim>\<open>assemble_transformation(ops, i, j)\<close>

  \<^item> for a cell of the matrix (\<open>0 \<le> i \<le> len(source)\<close>, \<open>0 \<le> j \<le> len(destination)\<close>) returns
    a sequence when the interpreter still allows \<open>i + j\<close> nested calls, and with any other
    depth returns a sequence or raises \<^verbatim>\<open>RecursionError\<close>, never \<^verbatim>\<open>IndexError\<close>;
  \<^item> raises Python's out-of-bounds exception \<^verbatim>\<open>IndexError\<close> at once when \<open>i > len(source)\<close>
    or \<open>j > len(destination)\<close>;
  \<^item> never returns a sequence when a coordinate is negative (a negative index is first
    read from the end of the list): it raises \<^verbatim>\<open>IndexError\<close> when the interpreter allows
    more than \<open>i + j + len(source) + len(destination) + 2\<close> nested calls, within which the
    traversal leaves the matrix, and \<^verbatim>\<open>IndexError\<close> or \<^verbatim>\<open>RecursionError\<close> otherwise.
\<close>

theorem assemble_transformation_bounds:
  assumes "(costs, ops) = compute_transform_tables source destination
             copy_cost replace_cost delete_cost insert_cost"
  shows "(0 \<le> i \<and> i \<le> int (length source) \<and> 0 \<le> j \<and> j \<le> int (length destination) \<longrightarrow>
            ((\<exists>seq. assemble_transformation depth ops i j = Inr seq) \<or>
             assemble_transformation depth ops i j = Inl RecursionError) \<and>
            (i + j \<le> int depth \<longrightarrow> (\<exists>seq. assemble_transformation depth ops i j = Inr seq))) \<and>
         (int (length source) < i \<or> int (length destination) < j \<longrightarrow>
            assemble_transformation depth ops i j = Inl IndexError) \<and>
         (i < 0 \<or> j < 0 \<longrightarrow>
            (\<exists>e. assemble_transformation depth ops i j = Inl e) \<and>
            (i + j + int (length source) + int (length destination) + 2 < int depth \<longrightarrow>
               assemble_transformation depth ops i j = Inl IndexError))"
proof (intro conjI impI)
  assume r: "0 \<le> i \<and> i \<le> int (length source) \<and> 0 \<le> j \<and> j \<le> int (length destination)"
  then have n: "nat i \<le> length source" "nat j \<le> length destination"
    "int (nat i) = i" "int (nat j) = j" by auto
  note a = assemble_ref_seq[OF assms n(1,2), of depth, unfolded n(3,4)]
  show "(\<exists>seq. assemble_transformation depth ops i j = Inr seq) \<or>
        assemble_transformation depth ops i j = Inl RecursionError"
    using a by simp
  assume d: "i + j \<le> int depth"
  have "path_ok source destination copy_cost replace_cost delete_cost insert_cost
          (nat i) (nat j)
          (ref_seq source destination copy_cost replace_cost delete_cost insert_cost
             (nat i) (nat j))"
    by (rule ref_seq_path_ok[OF n(1,2)])
  then have "length (ref_seq source destination copy_cost replace_cost delete_cost
                insert_cost (nat i) (nat j)) \<le> nat i + nat j"
    unfolding path_ok_def by simp
  also have "nat i + nat j \<le> depth" using d r by linarith
  finally show "\<exists>seq. assemble_transformation depth ops i j = Inr seq"
    using a by simp
next
  assume "int (length source) < i \<or> int (length destination) < j"
  then show "assemble_transformation depth ops i j = Inl IndexError"
    by (rule assemble_beyond[OF assms])
next
  assume "i < 0 \<or> j < 0"
  then show "\<exists>e. assemble_transformation depth ops i j = Inl e"
    by (rule assemble_negative)
next
  assume n: "i < 0 \<or> j < 0"
    and d: "i + j + int (length source) + int (length destination) + 2 < int depth"
  have "i + j + int (length source + 1) + int (length destination + 1) < int depth"
    using d by simp
  with n show "assemble_transformation depth ops i j = Inl IndexError"
    by (rule assemble_negative_index_error[OF tables_dims(2)[OF assms] tables_rows[OF assms]])
qed

theorem assemble_transformation_bounds_witness:
  "(te_test_costs, te_test_ops) = compute_transform_tables ''te'' ''test'' 1 1 1 1 \<and>
   (2 :: int) + 4 \<le> int 6 \<and> (\<exists>seq. assemble_transformation 6 te_test_ops 2 4 = Inr seq) \<and>
   int (length ''te'') < 3 \<and> assemble_transformation 6 te_test_ops 3 1 = Inl IndexError \<and>
   int (length ''test'') < 5 \<and> assemble_transformation 6 te_test_ops 1 5 = Inl IndexError \<and>
   (- 1 :: int) < 0 \<and> - 1 + - 1 + int (length ''te'') + int (length ''test'') + 2 < int 7 \<and>
   assemble_transformation 7 te_test_ops (- 1) (- 1) = Inl IndexError"
proof -
  note b = assemble_transformation_bounds[OF te_test_example]
  have "\<exists>seq. assemble_transformation 6 te_test_ops 2 4 = Inr seq"
    using b[of 2 4 6] by simp
  moreover have "assemble_transformation 6 te_test_ops 3 1 = Inl IndexError"
    using b[of 3 1 6] by simp
  moreover have "assemble_transformation 6 te_test_ops 1 5 = Inl IndexError"
    using b[of 1 5 6] by simp
  moreover have "assemble_transformation 7 te_test_ops (- 1) (- 1) = Inl IndexError"
    using b[of "- 1" "- 1" 7] by simp
  ultimately show ?thesis using te_test_example by simp
qed

text \<open>
  Claim C9. On the operation table built by \<^verbatim>\<open>compute_transform_tables\<close> and from any cell
  \<open>(i, j)\<close> of it: the base case \<open>(0, 0)\<close> returns the empty sequence; every recursive call
  made at \<open>(i, j)\<close> is made at a cell \<open>(i', j')\<close> of the same table with \<open>i' + j' < i + j\<close>; and
  every chain of \<open>k\<close> nested calls below \<open>(i, j)\<close> has \<open>k \<le> i + j\<close>, whatever depth the
  interpreter allows. So the traversal ends after at most \<open>i + j\<close> steps: it returns a
  sequence of at most \<open>i + j\<close> operations, one per call, when the interpreter allows
  \<open>i + j\<close> nested calls, and with any other depth it returns such a sequence or ends in
  \<^verbatim>\<open>RecursionError\<close>. \<open>assemble_transformation_rel callee caller\<close> is the call relation of
  the definition of \<^verbatim>\<open>assemble_transformation\<close> above.
\<close>

theorem assemble_transformation_terminates:
  assumes "(costs, ops) = compute_transform_tables source destination
             copy_cost replace_cost delete_cost insert_cost"
    and "0 \<le> i" "i \<le> int (length source)" "0 \<le> j" "j \<le> int (length destination)"
  shows "(\<forall>depth. assemble_transformation depth ops 0 0 = Inr []) \<and>
         (\<forall>depth ops' depth' i' j'.
            assemble_transformation_rel (depth', ops', i', j') (depth, ops, i, j) \<longrightarrow>
            ops' = ops \<and> depth = Suc depth' \<and>
            0 \<le> i' \<and> i' \<le> i \<and> 0 \<le> j' \<and> j' \<le> j \<and> i' + j' < i + j) \<and>
         (\<forall>depth k x.
            (assemble_transformation_rel ^^ k) x (depth, ops, i, j) \<longrightarrow> int k \<le> i + j) \<and>
         (\<forall>depth.
            (\<exists>seq. assemble_transformation depth ops i j = Inr seq \<and>
                   int (length seq) \<le> i + j) \<or>
            assemble_transformation depth ops i j = Inl RecursionError) \<and>
         (\<forall>depth. i + j \<le> int depth \<longrightarrow>
            (\<exists>seq. assemble_transformation depth ops i j = Inr seq \<and>
                   int (length seq) \<le> i + j))"
proof -
  define a b where "a = nat i" and "b = nat j"
  have ab: "i = int a" "j = int b" "a \<le> length source" "b \<le> length destination"
    using assms(2-5) unfolding a_def b_def by simp_all
  let ?seq = "ref_seq source destination copy_cost replace_cost delete_cost insert_cost a b"
  have base: "\<forall>depth. assemble_transformation depth ops 0 0 = Inr []"
    by (subst assemble_transformation.simps) simp
  have "path_ok source destination copy_cost replace_cost delete_cost insert_cost a b ?seq"
    by (rule ref_seq_path_ok[OF ab(3,4)])
  then have len: "length ?seq \<le> a + b"
    unfolding path_ok_def by simp
  note r = assemble_ref_seq[OF assms(1) ab(3,4)]
  have ret: "\<forall>depth.
            (\<exists>seq. assemble_transformation depth ops i j = Inr seq \<and>
                   int (length seq) \<le> i + j) \<or>
            assemble_transformation depth ops i j = Inl RecursionError"
    unfolding ab(1,2) using r len by simp
  have enough: "\<forall>depth. i + j \<le> int depth \<longrightarrow>
            (\<exists>seq. assemble_transformation depth ops i j = Inr seq \<and>
                   int (length seq) \<le> i + j)"
    unfolding ab(1,2) using r len by auto
  have step: "ops' = ops \<and> depth = Suc depth' \<and>
              0 \<le> i' \<and> i' \<le> i \<and> 0 \<le> j' \<and> j' \<le> j \<and> i' + j' < i + j"
    if "assemble_transformation_rel (depth', ops', i', j') (depth, ops, i, j)"
    for depth ops' depth' i' j'
    using rel_step[OF assms(1) ab(3,4) that[unfolded ab(1,2)]] unfolding ab(1,2) by auto
  have chain: "int k \<le> i + j"
    if "(assemble_transformation_rel ^^ k) x (depth, ops, i, j)" for depth k x
    using rel_chain[OF assms(1) ab(3,4) that[unfolded ab(1,2)]] unfolding ab(1,2) by simp
  show ?thesis using base ret enough step chain by blast
qed

theorem assemble_transformation_terminates_witness:
  "(te_test_costs, te_test_ops) = compute_transform_tables ''te'' ''test'' 1 1 1 1 \<and>
   (0::int) \<le> 2 \<and> 2 \<le> int (length ''te'') \<and> (0::int) \<le> 4 \<and> 4 \<le> int (length ''test'') \<and>
   assemble_transformation 0 te_test_ops 0 0 = Inr [] \<and>
   (2 :: int) + 4 \<le> int 6 \<and>
   assemble_transformation 6 te_test_ops 2 4 = Inr [''It'', ''Ie'', ''Rts'', ''Ret''] \<and>
   assemble_transformation_rel (5, te_test_ops, 1, 3) (6, te_test_ops, 2, 4) \<and>
   (1::int) + 3 < 2 + 4"
proof -
  have r: "(0::int) \<le> 2" "2 \<le> int (length ''te'')" "(0::int) \<le> 4" "4 \<le> int (length ''test'')"
    by simp_all
  note t = assemble_transformation_terminates[OF te_test_example r]
  have "assemble_transformation_rel (5, te_test_ops, 2 - 1, 4 - 1) (6, te_test_ops, 2, 4)"
    by (rule assemble_transformation_rel.intros(1)[of 2 4 te_test_ops
          "[''De'', ''Ret'', ''Ce'', ''Res'', ''Ret'']" "''Ret''" "CHR ''R''" 6 5])
       (simp_all add: te_test_ops_def py_index_def py_nth_def)
  then have rel: "assemble_transformation_rel (5, te_test_ops, 1, 3) (6, te_test_ops, 2, 4)"
    by simp
  from t rel have d: "(1::int) + 3 < 2 + 4" by blast
  from t have b: "assemble_transformation 0 te_test_ops 0 0 = Inr []" by blast
  have l: "(2 :: int) + 4 \<le> int 6" by simp
  from r te_test_example te_test_assemble rel d b l show ?thesis by blast
qed

end
